theory Spec2Isabelle
  imports Complex_Main
begin

section \<open>Errors\<close>

text \<open>
  Exceptions are values. \<open>ValueError\<close> is the one exception the sources raise themselves
  (\<open>dispatch_fallback\<close>); \<open>IndexError\<close>, \<open>RuntimeError\<close> and \<open>TypeError\<close> are what
  the tensor library raises on an index outside a tensor, on concatenating tensors of
  different row shapes, and on calling \<open>torch.dtype\<close>; \<open>BackendError\<close> stands for any
  exception a concrete grammar backend may raise.
\<close>

datatype error =
    ValueError string
  | IndexError
  | RuntimeError string
  | TypeError string
  | BackendError string

section \<open>Tensors\<close>

text \<open>
  A one-dimensional tensor of \<open>n\<close> entries is a list of \<open>n\<close> values; \<open>temperatures\<close>, which
  the source reshapes with \<open>view(-1, 1)\<close>, has one value per row and is a list as well.
  A tensor of two or more dimensions keeps its trailing shape (\<open>shape[1:]\<close>) and one
  flattened row per index of dimension 0. Floating-point entries are reals: the modelled
  code compares them with 0 and moves them, and computes nothing with them.
\<close>

record 'a tensor =
  row_shape :: "nat list"
  rows :: "'a list list"

text \<open>\<open>torch.empty((bs, *shape)).fill_(default)\<close>\<close>

definition full :: "nat \<Rightarrow> nat list \<Rightarrow> 'a \<Rightarrow> 'a tensor" where
  "full bs shape fill_value =
     \<lparr>row_shape = shape, rows = replicate bs (replicate (prod_list shape) fill_value)\<rparr>"

text \<open>\<open>torch.cat([lhs, rhs])\<close> along dimension 0: the trailing shapes must agree.\<close>

definition cat :: "'a tensor \<Rightarrow> 'a tensor \<Rightarrow> error + 'a tensor" where
  "cat lhs rhs =
     (if row_shape lhs = row_shape rhs
      then Inr \<lparr>row_shape = row_shape lhs, rows = rows lhs @ rows rhs\<rparr>
      else Inl (RuntimeError ''Sizes of tensors must match except in dimension 0''))"

text \<open>
  \<open>value[new_indices]\<close> with a tensor of integer indices gathers rows of dimension 0 in
  the order of the indices. A negative index counts from the end; an index outside
  \<open>-n .. n-1\<close> raises.
\<close>

definition row_index :: "nat \<Rightarrow> int \<Rightarrow> nat" where
  "row_index n i = nat (if i < 0 then i + int n else i)"

definition index_rows :: "'a list \<Rightarrow> int list \<Rightarrow> error + 'a list" where
  "index_rows xs new_indices =
     (if list_all (\<lambda>i. - int (length xs) \<le> i \<and> i < int (length xs)) new_indices
      then Inr (map (\<lambda>i. xs ! row_index (length xs) i) new_indices)
      else Inl IndexError)"

definition index_tensor :: "'a tensor \<Rightarrow> int list \<Rightarrow> error + 'a tensor" where
  "index_tensor t new_indices =
     (case index_rows (rows t) new_indices of
        Inl e \<Rightarrow> Inl e
      | Inr rs \<Rightarrow> Inr \<lparr>row_shape = row_shape t, rows = rs\<rparr>)"

section \<open>Collaborators of the sampling state\<close>

text \<open>
  The penalizer library is not part of the sources. A penalizer is what
  \<open>update_penalties\<close> reads of it: whether it is prepared, whether it is the repetition
  penalizer (the \<open>isinstance\<close> test), its \<open>cumulated_repetition_penalties\<close> and its
  \<open>apply\<close> method, a function from the buffer it is given to the buffer it returns.
  The orchestrator holds its penalizers in the order of its dictionary and answers
  \<open>batch.batch_size()\<close>.
\<close>

record 'p penalizer =
  is_prepared :: bool
  is_repetition :: bool
  cumulated_repetition_penalties :: 'p
  apply_penalizer :: "'p \<Rightarrow> 'p"

record 'p orchestrator =
  penalizers :: "'p penalizer list"
  batch_size :: nat

text \<open>
  A grammar object, as \<open>update_regex_vocab_mask\<close> uses it: \<open>allocate_vocab_mask\<close> takes
  the vocabulary size, the batch size and the device; \<open>fill_vocab_mask\<close> takes the mask
  and a row number and returns the mask it leaves behind; \<open>apply_vocab_mask\<close> is the
  static routine of the object's class.
\<close>

record ('m, 'a) grammar =
  allocate_vocab_mask :: "nat \<Rightarrow> nat \<Rightarrow> string \<Rightarrow> 'm"
  fill_vocab_mask :: "'m \<Rightarrow> nat \<Rightarrow> 'm"
  apply_vocab_mask :: 'a

section \<open>SamplingBatchInfo\<close>

text \<open>
  The dataclass, field by field. The type parameters are what the fields hold:
  \<open>'f\<close> a tensor of floats, \<open>'k\<close> a tensor of integers, \<open>'b\<close> the logit bias, \<open>'m\<close> a
  vocabulary mask, \<open>'a\<close> a mask-application routine, \<open>'g\<close> a grammar object, \<open>'o\<close> a
  penalizer orchestrator, \<open>'p\<close> a penalty buffer. \<open>copy\<close> is defined for every choice of
  them, so also when the fields hold references to tensor objects; the operations that
  compute with the rows take the fields to be the tensors themselves.
\<close>

record ('f, 'k, 'b, 'm, 'a, 'g, 'o, 'p) SamplingBatchInfo =
  temperatures :: 'f
  top_ps :: 'f
  top_ks :: 'k
  min_ps :: 'f
  is_all_greedy :: bool
  need_min_p_sampling :: bool
  vocab_size :: nat
  logit_bias :: "'b option"
  vocab_mask :: "'m option"
  apply_mask :: "'a option"
  grammars :: "'g option list option"
  penalizer_orchestrator :: "'o option"
  linear_penalties :: "'p option"
  scaling_penalties :: "'p option"
  device :: string

type_synonym ('m, 'a) sampling_info =
  "(real list, int list, real tensor, 'm, 'a, ('m, 'a) grammar,
    real list list orchestrator, real list list) SamplingBatchInfo"

text \<open>A call that raises ends the calls that follow it.\<close>

definition and_then :: "error + 'x \<Rightarrow> ('x \<Rightarrow> error + 'y) \<Rightarrow> error + 'y" where
  "and_then r f = (case r of Inl e \<Rightarrow> Inl e | Inr x \<Rightarrow> f x)"

subsection \<open>from_schedule_batch\<close>

record SamplingParams =
  temperature :: real
  top_p :: real
  top_k :: int
  min_p :: real

record Req =
  sampling_params :: SamplingParams

record ScheduleBatch =
  reqs :: "Req list"
  batch_device :: string

text \<open>
  The constructor of the orchestrator belongs to the penalizer library and is a parameter.
\<close>

definition from_schedule_batch ::
  "(nat \<Rightarrow> ScheduleBatch \<Rightarrow> real list list orchestrator) \<Rightarrow>
   ScheduleBatch \<Rightarrow> nat \<Rightarrow> bool \<Rightarrow> ('m, 'a) sampling_info" where
  "from_schedule_batch new_orchestrator batch vsize disable_penalizer =
     \<lparr>temperatures = map (\<lambda>r. temperature (sampling_params r)) (reqs batch),
      top_ps = map (\<lambda>r. top_p (sampling_params r)) (reqs batch),
      top_ks = map (\<lambda>r. top_k (sampling_params r)) (reqs batch),
      min_ps = map (\<lambda>r. min_p (sampling_params r)) (reqs batch),
      is_all_greedy = list_all (\<lambda>r. top_k (sampling_params r) \<le> 1) (reqs batch),
      need_min_p_sampling = list_ex (\<lambda>r. min_p (sampling_params r) > 0) (reqs batch),
      vocab_size = vsize,
      logit_bias = None,
      vocab_mask = None,
      apply_mask = None,
      grammars = None,
      penalizer_orchestrator =
        (if disable_penalizer then None else Some (new_orchestrator vsize batch)),
      linear_penalties = None,
      scaling_penalties = None,
      device = batch_device batch\<rparr>"

text \<open>\<open>__len__\<close>\<close>

definition len :: "('x list, 'k, 'b, 'm, 'a, 'g, 'o, 'p) SamplingBatchInfo \<Rightarrow> nat" where
  "len self = length (temperatures self)"

subsection \<open>update_penalties\<close>

text \<open>
  The loop over \<open>penalizer_orchestrator.penalizers.values()\<close>, one penalizer at a time.
  \<open>torch.zeros((bs, vocab_size))\<close> is \<open>bs\<close> rows of \<open>vocab_size\<close> zeros. An
  orchestrator object is true in a condition, so \<open>not self.penalizer_orchestrator\<close>
  holds exactly when the field is \<open>None\<close>.
\<close>

primrec penalty_loop ::
  "real list list orchestrator \<Rightarrow> real list list penalizer list \<Rightarrow>
   ('m, 'a) sampling_info \<Rightarrow> ('m, 'a) sampling_info" where
  "penalty_loop orch [] self = self"
| "penalty_loop orch (p # ps) self =
     penalty_loop orch ps
       (if \<not> is_prepared p then self
        else if is_repetition p
          then self\<lparr>scaling_penalties := Some (cumulated_repetition_penalties p)\<rparr>
        else
          (let zeroed =
             (case linear_penalties self of
                None \<Rightarrow> self\<lparr>linear_penalties :=
                           Some (replicate (batch_size orch) (replicate (vocab_size self) 0))\<rparr>
              | Some _ \<Rightarrow> self)
           in zeroed\<lparr>linear_penalties :=
                       map_option (apply_penalizer p) (linear_penalties zeroed)\<rparr>))"

definition update_penalties :: "('m, 'a) sampling_info \<Rightarrow> ('m, 'a) sampling_info" where
  "update_penalties self =
     (case penalizer_orchestrator self of
        None \<Rightarrow> self
      | Some orch \<Rightarrow>
          penalty_loop orch (penalizers orch)
            (self\<lparr>scaling_penalties := None, linear_penalties := None\<rparr>))"

subsection \<open>update_regex_vocab_mask\<close>

text \<open>The loop \<open>for i, grammar in enumerate(self.grammars)\<close>, from row \<open>i\<close> on.\<close>

primrec fill_rows :: "nat \<Rightarrow> ('m, 'a) grammar option list \<Rightarrow> 'm \<Rightarrow> 'm" where
  "fill_rows i [] vmask = vmask"
| "fill_rows i (g # gs) vmask =
     fill_rows (Suc i) gs
       (case g of None \<Rightarrow> vmask | Some grammar \<Rightarrow> fill_vocab_mask grammar vmask i)"

text \<open>
  A grammar object is true in a condition (\<open>BaseGrammarObject\<close> defines neither
  \<open>__bool__\<close> nor \<open>__len__\<close>), so \<open>any(grammar for grammar in self.grammars)\<close> and
  \<open>next(grammar for grammar in self.grammars if grammar is not None)\<close> look for the same
  row: the first one that holds an object.
\<close>

definition update_regex_vocab_mask :: "('m, 'a) sampling_info \<Rightarrow> ('m, 'a) sampling_info" where
  "update_regex_vocab_mask self =
     (case grammars self of
        None \<Rightarrow> self\<lparr>vocab_mask := None, apply_mask := None\<rparr>
      | Some gs \<Rightarrow>
          (case find (\<lambda>g. g \<noteq> None) gs of
             Some (Some grammar) \<Rightarrow>
               self\<lparr>vocab_mask :=
                      Some (fill_rows 0 gs
                        (allocate_vocab_mask grammar (vocab_size self)
                           (length (temperatures self)) (device self))),
                    apply_mask := Some (apply_vocab_mask grammar)\<rparr>
           | _ \<Rightarrow> self\<lparr>vocab_mask := None, apply_mask := None\<rparr>))"

text \<open>
  The rows of a list of grammars that hold a grammar object, each with its row number,
  counted from \<open>i\<close>.
\<close>

definition constrained_rows ::
  "nat \<Rightarrow> ('m, 'a) grammar option list \<Rightarrow> (nat \<times> ('m, 'a) grammar) list" where
  "constrained_rows i gs = List.map_filter (\<lambda>(j, g). map_option (Pair j) g) (enumerate i gs)"

subsection \<open>filter_batch\<close>

text \<open>
  The orchestrator's \<open>filter\<close> is a parameter. The loop over the five attribute names is
  written out in its order; the first gather that raises ends the call.
\<close>

definition filter_batch ::
  "(int list \<Rightarrow> int list \<Rightarrow> real list list orchestrator \<Rightarrow> real list list orchestrator) \<Rightarrow>
   int list \<Rightarrow> int list \<Rightarrow> ('m, 'a) sampling_info \<Rightarrow> error + ('m, 'a) sampling_info" where
  "filter_batch orch_filter unfinished_indices new_indices self =
     and_then (index_rows (temperatures self) new_indices) (\<lambda>ts.
     and_then (index_rows (top_ps self) new_indices) (\<lambda>ps.
     and_then (index_rows (top_ks self) new_indices) (\<lambda>ks.
     and_then (index_rows (min_ps self) new_indices) (\<lambda>ms.
     and_then (case logit_bias self of
                 None \<Rightarrow> Inr None
               | Some b \<Rightarrow> map_sum id Some (index_tensor b new_indices)) (\<lambda>bias.
     Inr (self\<lparr>penalizer_orchestrator :=
                 map_option (orch_filter unfinished_indices new_indices)
                   (penalizer_orchestrator self),
               temperatures := ts, top_ps := ps, top_ks := ks, min_ps := ms,
               logit_bias := bias\<rparr>))))))"

text \<open>The row counts of the arrays \<open>filter_batch\<close> gathers from.\<close>

definition row_counts :: "('m, 'a) sampling_info \<Rightarrow> nat list" where
  "row_counts self =
     [length (temperatures self), length (top_ps self), length (top_ks self),
      length (min_ps self)] @
     (case logit_bias self of None \<Rightarrow> [] | Some b \<Rightarrow> [length (rows b)])"

subsection \<open>merge_bias_tensor and merge_batch\<close>

text \<open>
  \<open>torch.dtype(dtype)\<close>, the expression of the \<open>with\<close> statement: \<open>torch.dtype\<close> is a
  class of which no instance can be created, so the call raises, and the block under
  the \<open>with\<close> is not entered.
\<close>

definition torch_dtype :: "error + unit" where
  "torch_dtype = Inl (TypeError ''cannot create torch.dtype instances'')"

text \<open>
  The shape is taken from \<open>lhs\<close> when there is one and from \<open>rhs\<close> otherwise; with
  neither the function returns \<open>None\<close>. The block under the \<open>with\<close> fills the missing
  side and concatenates.
\<close>

definition merge_bias_tensor ::
  "'v tensor option \<Rightarrow> 'v tensor option \<Rightarrow> nat \<Rightarrow> nat \<Rightarrow> string \<Rightarrow> 'v \<Rightarrow>
   error + 'v tensor option" where
  "merge_bias_tensor lhs rhs bs1 bs2 dev fill_value =
     (case (case lhs of Some l \<Rightarrow> Some (row_shape l) | None \<Rightarrow> map_option row_shape rhs) of
        None \<Rightarrow> Inr None
      | Some shape \<Rightarrow>
          and_then torch_dtype (\<lambda>_.
            map_sum id Some
              (cat (case lhs of None \<Rightarrow> full bs1 shape fill_value | Some l \<Rightarrow> l)
                   (case rhs of None \<Rightarrow> full bs2 shape fill_value | Some r \<Rightarrow> r))))"

text \<open>
  The orchestrator's \<open>merge\<close> is a parameter. The statements run in the source's order:
  the four arrays are concatenated, then the flag is set, then the bias is merged, with
  \<open>len(self)\<close> and \<open>len(other)\<close> evaluated at that point. \<open>other\<close> is an object
  different from \<open>self\<close>. The object is changed in place: when the merge of the bias
  raises, the result is the exception together with the state the call leaves behind,
  the arrays and the flag merged and the bias as it was.
\<close>

definition merge_batch ::
  "(real list list orchestrator \<Rightarrow> real list list orchestrator option \<Rightarrow>
      real list list orchestrator) \<Rightarrow>
   ('m, 'a) sampling_info \<Rightarrow> ('m, 'a) sampling_info \<Rightarrow>
   error \<times> ('m, 'a) sampling_info + ('m, 'a) sampling_info" where
  "merge_batch orch_merge self other =
     (let s1 = self\<lparr>penalizer_orchestrator :=
                  map_option (\<lambda>orch. orch_merge orch (penalizer_orchestrator other))
                    (penalizer_orchestrator self)\<rparr>;
          s2 = s1\<lparr>temperatures := temperatures s1 @ temperatures other\<rparr>;
          s3 = s2\<lparr>top_ps := top_ps s2 @ top_ps other\<rparr>;
          s4 = s3\<lparr>top_ks := top_ks s3 @ top_ks other\<rparr>;
          s5 = s4\<lparr>min_ps := min_ps s4 @ min_ps other\<rparr>;
          s6 = s5\<lparr>is_all_greedy := (is_all_greedy s5 \<and> is_all_greedy other)\<rparr>
      in case merge_bias_tensor (logit_bias s6) (logit_bias other) (len s6) (len other)
                (device s6) 0 of
           Inl e \<Rightarrow> Inl (e, s6)
         | Inr bias \<Rightarrow> Inr (s6\<lparr>logit_bias := bias\<rparr>))"

subsection \<open>copy\<close>

definition copy ::
  "('f, 'k, 'b, 'm, 'a, 'g, 'o, 'p) SamplingBatchInfo \<Rightarrow>
   ('f, 'k, 'b, 'm, 'a, 'g, 'o, 'p) SamplingBatchInfo" where
  "copy self =
     \<lparr>temperatures = temperatures self,
      top_ps = top_ps self,
      top_ks = top_ks self,
      min_ps = min_ps self,
      is_all_greedy = is_all_greedy self,
      need_min_p_sampling = need_min_p_sampling self,
      vocab_size = vocab_size self,
      logit_bias = None,
      vocab_mask = None,
      apply_mask = None,
      grammars = None,
      penalizer_orchestrator = None,
      linear_penalties = None,
      scaling_penalties = None,
      device = device self\<rparr>"

text \<open>
  \<open>copy\<close> as a call on objects: the states live in a heap, an object's address is its
  index, and the new object takes the next free address. What a field of an object holds
  is left open, so it may be the address of a tensor in a heap of its own.
\<close>

definition copy_object ::
  "('f, 'k, 'b, 'm, 'a, 'g, 'o, 'p) SamplingBatchInfo list \<Rightarrow> nat \<Rightarrow>
   ('f, 'k, 'b, 'm, 'a, 'g, 'o, 'p) SamplingBatchInfo list \<times> nat" where
  "copy_object heap self = (heap @ [copy (heap ! self)], length heap)"

section \<open>BaseGrammarBackend\<close>

text \<open>
  A cache key is the pair of a key type and a key string. The four \<open>dispatch_*\<close> methods
  are abstract: a concrete backend is the record of its four methods, each returning a
  new grammar object, \<open>None\<close>, or raising. Grammar objects and cache entries are objects
  with identity: each lives in a heap, its address is its index, and a new object takes
  the next free address. \<open>BaseGrammarObject.copy\<close> is abstract as well and is the
  parameter \<open>grammar_copy\<close>, the content of the new object given the content of the
  copied one. A grammar object and a cache entry are true in a condition, so
  \<open>if entry.value\<close>, \<open>if val\<close> and \<open>not entry\<close> test for \<open>None\<close>.
\<close>

type_synonym key = "string \<times> string"

record 'p dispatchers =
  dispatch_json :: "string \<Rightarrow> error + 'p option"
  dispatch_regex :: "string \<Rightarrow> error + 'p option"
  dispatch_ebnf :: "string \<Rightarrow> error + 'p option"
  dispatch_structural_tag :: "string \<Rightarrow> error + 'p option"

definition dispatch_fallback :: "string \<Rightarrow> string \<Rightarrow> error + 'p option" where
  "dispatch_fallback key_type key_string =
     Inl (ValueError (''Invalid key_type: '' @ key_type))"

definition init_value_dispatch :: "'p dispatchers \<Rightarrow> key \<Rightarrow> error + 'p option" where
  "init_value_dispatch backend key =
     (case key of (key_type, key_string) \<Rightarrow>
        if key_type = ''json'' then dispatch_json backend key_string
        else if key_type = ''regex'' then dispatch_regex backend key_string
        else if key_type = ''ebnf'' then dispatch_ebnf backend key_string
        else if key_type = ''structural_tag'' then dispatch_structural_tag backend key_string
        else dispatch_fallback key_type key_string)"

text \<open>
  The bodies the base class gives its abstract methods: \<open>_not_supported\<close> logs a warning
  and returns \<open>None\<close>.
\<close>

definition not_supported :: "string \<Rightarrow> string \<Rightarrow> error + 'p option" where
  "not_supported key_type key_string = Inr None"

definition base_dispatchers :: "'p dispatchers" where
  "base_dispatchers =
     \<lparr>dispatch_json = not_supported ''json'',
      dispatch_regex = not_supported ''regex'',
      dispatch_ebnf = not_supported ''ebnf'',
      dispatch_structural_tag = not_supported ''structural_tag''\<rparr>"

text \<open>
  A cache entry: the address of its grammar object, if any, and whether its event is set.
\<close>

record CacheEntry =
  entry_value :: "nat option"
  event :: bool

text \<open>
  A call of \<open>_init_value\<close> is a task of the executor and stands at one of its program
  points: before the locked block; at \<open>entry.event.wait()\<close>; before
  \<open>_init_value_dispatch\<close>; before \<open>entry.event.set()\<close>; before the \<open>return\<close>; returned
  with its result; or ended by an exception. A task carries the key it was called with
  and the address of the entry it holds.
\<close>

datatype task =
    Start key
  | Waiting key nat
  | Dispatching key nat
  | Signalling key nat
  | Returning key nat
  | Returned key "nat option"
  | Raised key error

text \<open>
  The backend: its cache (a dictionary from keys to entries), the two heaps, the tasks of
  its executor, and the keys \<open>_init_value_dispatch\<close> has been called with, in the order
  of the calls.
\<close>

record 'p BaseGrammarBackend =
  cache :: "key \<rightharpoonup> nat"
  entries :: "CacheEntry list"
  objects :: "'p list"
  executor :: "task list"
  dispatched :: "key list"

definition new_backend :: "'p BaseGrammarBackend" where
  "new_backend = \<lparr>cache = Map.empty, entries = [], objects = [], executor = [], dispatched = []\<rparr>"

text \<open>
  One step of task \<open>i\<close> of \<open>_init_value\<close>. The block under \<open>cache_lock\<close> is one step; a
  task at \<open>wait()\<close> moves only once the event is set; the dispatch stores its result in
  the entry, or ends the task with the exception it raises.
\<close>

definition step ::
  "'p dispatchers \<Rightarrow> ('p \<Rightarrow> 'p) \<Rightarrow> nat \<Rightarrow> 'p BaseGrammarBackend \<Rightarrow> 'p BaseGrammarBackend" where
  "step backend grammar_copy i self =
     (if length (executor self) \<le> i then self
      else case executor self ! i of
        Start key \<Rightarrow>
          (case cache self key of
             Some e \<Rightarrow> self\<lparr>executor := (executor self)[i := Waiting key e]\<rparr>
           | None \<Rightarrow>
               self\<lparr>cache := (cache self)(key \<mapsto> length (entries self)),
                    entries := entries self @ [\<lparr>entry_value = None, event = False\<rparr>],
                    executor := (executor self)[i := Dispatching key (length (entries self))]\<rparr>)
      | Waiting key e \<Rightarrow>
          (if event (entries self ! e)
           then self\<lparr>executor := (executor self)[i := Returning key e]\<rparr>
           else self)
      | Dispatching key e \<Rightarrow>
          (case init_value_dispatch backend key of
             Inl err \<Rightarrow>
               self\<lparr>executor := (executor self)[i := Raised key err],
                    dispatched := dispatched self @ [key]\<rparr>
           | Inr None \<Rightarrow>
               self\<lparr>entries := (entries self)[e := (entries self ! e)\<lparr>entry_value := None\<rparr>],
                    executor := (executor self)[i := Signalling key e],
                    dispatched := dispatched self @ [key]\<rparr>
           | Inr (Some p) \<Rightarrow>
               self\<lparr>objects := objects self @ [p],
                    entries := (entries self)
                      [e := (entries self ! e)\<lparr>entry_value := Some (length (objects self))\<rparr>],
                    executor := (executor self)[i := Signalling key e],
                    dispatched := dispatched self @ [key]\<rparr>)
      | Signalling key e \<Rightarrow>
          self\<lparr>entries := (entries self)[e := (entries self ! e)\<lparr>event := True\<rparr>],
               executor := (executor self)[i := Returning key e]\<rparr>
      | Returning key e \<Rightarrow>
          (case entry_value (entries self ! e) of
             None \<Rightarrow> self\<lparr>executor := (executor self)[i := Returned key None]\<rparr>
           | Some c \<Rightarrow>
               self\<lparr>objects := objects self @ [grammar_copy (objects self ! c)],
                    executor := (executor self)[i := Returned key (Some (length (objects self)))]\<rparr>)
      | Returned key r \<Rightarrow> self
      | Raised key err \<Rightarrow> self)"

text \<open>\<open>get_cached_value\<close>: the whole body runs under the lock.\<close>

definition get_cached_value ::
  "('p \<Rightarrow> 'p) \<Rightarrow> key \<Rightarrow> 'p BaseGrammarBackend \<Rightarrow> nat option \<times> 'p BaseGrammarBackend" where
  "get_cached_value grammar_copy key self =
     (case cache self key of
        None \<Rightarrow> (None, self)
      | Some e \<Rightarrow>
          if \<not> event (entries self ! e) then (None, self)
          else (case entry_value (entries self ! e) of
                  None \<Rightarrow> (None, self)
                | Some c \<Rightarrow>
                    (Some (length (objects self)),
                     self\<lparr>objects := objects self @ [grammar_copy (objects self ! c)]\<rparr>)))"

text \<open>
  \<open>get_future_value\<close> hands a call of \<open>_init_value\<close> to the executor; the future it
  returns is the number of the task.
\<close>

definition get_future_value ::
  "key \<Rightarrow> 'p BaseGrammarBackend \<Rightarrow> nat \<times> 'p BaseGrammarBackend" where
  "get_future_value key self =
     (length (executor self), self\<lparr>executor := executor self @ [Start key]\<rparr>)"

definition reset :: "'p BaseGrammarBackend \<Rightarrow> 'p BaseGrammarBackend" where
  "reset self = self\<lparr>cache := Map.empty\<rparr>"

text \<open>
  What happens to a backend, one action at a time: a caller asks for a key, the scheduler
  lets a task take its next step, a caller peeks at the cache, or the cache is reset.
  Any interleaving of any number of callers is a list of actions.
\<close>

datatype action = Submit key | Run nat | Peek key | Reset

definition perform ::
  "'p dispatchers \<Rightarrow> ('p \<Rightarrow> 'p) \<Rightarrow> 'p BaseGrammarBackend \<Rightarrow> action \<Rightarrow> 'p BaseGrammarBackend" where
  "perform backend grammar_copy self a =
     (case a of
        Submit key \<Rightarrow> snd (get_future_value key self)
      | Run i \<Rightarrow> step backend grammar_copy i self
      | Peek key \<Rightarrow> snd (get_cached_value grammar_copy key self)
      | Reset \<Rightarrow> reset self)"

definition run ::
  "'p dispatchers \<Rightarrow> ('p \<Rightarrow> 'p) \<Rightarrow> action list \<Rightarrow> 'p BaseGrammarBackend \<Rightarrow>
   'p BaseGrammarBackend" where
  "run backend grammar_copy actions self = foldl (perform backend grammar_copy) self actions"

subsection \<open>What holds of a backend that has not been reset\<close>

text \<open>
  A task owns a key while it is the one to dispatch it and to set the event of its entry.
\<close>

fun owns :: "key \<Rightarrow> task \<Rightarrow> bool" where
  "owns k (Dispatching key e) = (key = k)"
| "owns k (Signalling key e) = (key = k)"
| "owns k _ = False"

text \<open>
  What a task's program point says about the backend: the entry a task holds is the
  cache's entry for its key; the entry is not ready before its owner has set the event
  and is ready after; a key is dispatched by the time its owner is past the dispatch and
  not before; a result is \<open>None\<close> when the entry has no value, and otherwise the address
  of an object other than the entry's, whose content is the copy of the entry's.
\<close>

fun task_ok :: "('p \<Rightarrow> 'p) \<Rightarrow> 'p BaseGrammarBackend \<Rightarrow> task \<Rightarrow> bool" where
  "task_ok grammar_copy self (Start key) = True"
| "task_ok grammar_copy self (Waiting key e) = (cache self key = Some e)"
| "task_ok grammar_copy self (Dispatching key e) =
     (cache self key = Some e \<and> \<not> event (entries self ! e)
      \<and> entry_value (entries self ! e) = None \<and> key \<notin> set (dispatched self))"
| "task_ok grammar_copy self (Signalling key e) =
     (cache self key = Some e \<and> \<not> event (entries self ! e))"
| "task_ok grammar_copy self (Returning key e) =
     (cache self key = Some e \<and> event (entries self ! e))"
| "task_ok grammar_copy self (Returned key r) =
     (case cache self key of
        None \<Rightarrow> False
      | Some e \<Rightarrow>
          event (entries self ! e) \<and>
          (case (r, entry_value (entries self ! e)) of
             (None, None) \<Rightarrow> True
           | (Some a, Some c) \<Rightarrow>
               a < length (objects self) \<and> a \<noteq> c
               \<and> objects self ! a = grammar_copy (objects self ! c)
           | _ \<Rightarrow> False))"
| "task_ok grammar_copy self (Raised key err) = True"

definition entries_ok :: "'p BaseGrammarBackend \<Rightarrow> bool" where
  "entries_ok self \<longleftrightarrow>
     (\<forall>k e. cache self k = Some e \<longrightarrow> e < length (entries self))
     \<and> (\<forall>k k' e. cache self k = Some e \<longrightarrow> cache self k' = Some e \<longrightarrow> k = k')
     \<and> (\<forall>e c. e < length (entries self) \<longrightarrow> entry_value (entries self ! e) = Some c \<longrightarrow>
           c < length (objects self))"

definition tasks_ok :: "('p \<Rightarrow> 'p) \<Rightarrow> 'p BaseGrammarBackend \<Rightarrow> bool" where
  "tasks_ok grammar_copy self \<longleftrightarrow>
     (\<forall>j < length (executor self). task_ok grammar_copy self (executor self ! j))"

definition single_owner :: "'p BaseGrammarBackend \<Rightarrow> bool" where
  "single_owner self \<longleftrightarrow>
     (\<forall>i j k. i < length (executor self) \<longrightarrow> j < length (executor self) \<longrightarrow>
        owns k (executor self ! i) \<longrightarrow> owns k (executor self ! j) \<longrightarrow> i = j)"

definition log_ok :: "'p BaseGrammarBackend \<Rightarrow> bool" where
  "log_ok self \<longleftrightarrow>
     (\<forall>k. cache self k = None \<longrightarrow> k \<notin> set (dispatched self)) \<and> distinct (dispatched self)"

definition results_apart :: "'p BaseGrammarBackend \<Rightarrow> bool" where
  "results_apart self \<longleftrightarrow>
     (\<forall>i j k k' a. i < length (executor self) \<longrightarrow> j < length (executor self) \<longrightarrow>
        executor self ! i = Returned k (Some a) \<longrightarrow> executor self ! j = Returned k' (Some a) \<longrightarrow>
        i = j)"

definition cache_inv :: "('p \<Rightarrow> 'p) \<Rightarrow> 'p BaseGrammarBackend \<Rightarrow> bool" where
  "cache_inv grammar_copy self \<longleftrightarrow>
     entries_ok self \<and> tasks_ok grammar_copy self \<and> single_owner self \<and> log_ok self
     \<and> results_apart self"


subsection \<open>What the dispatch of a key leaves behind\<close>





section \<open>Test data\<close>

text \<open>
  Two small sampling states, rows A and B and row C, and row C with a logit bias of one
  row over a vocabulary of two tokens.
\<close>

definition example_ab :: "(unit, unit) sampling_info" where
  "example_ab =
     \<lparr>temperatures = [1, 0.5], top_ps = [0.9, 1], top_ks = [1, 40], min_ps = [0, 0],
      is_all_greedy = False, need_min_p_sampling = False, vocab_size = 2,
      logit_bias = None, vocab_mask = None, apply_mask = None, grammars = None,
      penalizer_orchestrator = None, linear_penalties = None, scaling_penalties = None,
      device = ''cuda''\<rparr>"

definition example_c :: "(unit, unit) sampling_info" where
  "example_c =
     \<lparr>temperatures = [0.7], top_ps = [0.8], top_ks = [1], min_ps = [0.1],
      is_all_greedy = True, need_min_p_sampling = True, vocab_size = 2,
      logit_bias = None, vocab_mask = None, apply_mask = None, grammars = None,
      penalizer_orchestrator = None, linear_penalties = None, scaling_penalties = None,
      device = ''cuda''\<rparr>"

definition example_c_biased :: "(unit, unit) sampling_info" where
  "example_c_biased = example_c\<lparr>logit_bias := Some \<lparr>row_shape = [2], rows = [[0.25, -1]]\<rparr>\<rparr>"

text \<open>The requests A, B and C as the scheduler holds them.\<close>

definition request_a :: Req where
  "request_a = \<lparr>sampling_params = \<lparr>temperature = 1, top_p = 0.9, top_k = 1, min_p = 0\<rparr>\<rparr>"

definition request_b :: Req where
  "request_b = \<lparr>sampling_params = \<lparr>temperature = 0.5, top_p = 1, top_k = 40, min_p = 0\<rparr>\<rparr>"

definition request_c :: Req where
  "request_c = \<lparr>sampling_params = \<lparr>temperature = 0.7, top_p = 0.8, top_k = 1, min_p = 0.1\<rparr>\<rparr>"

text \<open>Rows A, B and C in one state, with a logit bias that is zero for A and B.\<close>

definition example_abc :: "(unit, unit) sampling_info" where
  "example_abc =
     \<lparr>temperatures = [1, 0.5, 0.7], top_ps = [0.9, 1, 0.8], top_ks = [1, 40, 1],
      min_ps = [0, 0, 0.1], is_all_greedy = False, need_min_p_sampling = True, vocab_size = 2,
      logit_bias = Some \<lparr>row_shape = [2], rows = [[0, 0], [0, 0], [0.25, -1]]\<rparr>,
      vocab_mask = None, apply_mask = None, grammars = None,
      penalizer_orchestrator = None, linear_penalties = None, scaling_penalties = None,
      device = ''cuda''\<rparr>"

text \<open>
  A sampling state whose fields hold addresses: its tensors and collaborators are the
  objects 0 to 10 of some heap.
\<close>

definition example_object :: "(nat, nat, nat, nat, nat, nat, nat, nat) SamplingBatchInfo" where
  "example_object =
     \<lparr>temperatures = 0, top_ps = 1, top_ks = 2, min_ps = 3,
      is_all_greedy = False, need_min_p_sampling = True, vocab_size = 2,
      logit_bias = Some 4, vocab_mask = Some 5, apply_mask = Some 6, grammars = Some [Some 7],
      penalizer_orchestrator = Some 8, linear_penalties = Some 9, scaling_penalties = Some 10,
      device = ''cuda''\<rparr>"

text \<open>
  An orchestrator of one row: a prepared penalizer that lowers every entry by 1, and a
  prepared repetition penalizer. Row C with this orchestrator and stale penalty buffers.
\<close>

definition example_orchestrator :: "real list list orchestrator" where
  "example_orchestrator =
     \<lparr>penalizers =
        [\<lparr>is_prepared = True, is_repetition = False, cumulated_repetition_penalties = [],
          apply_penalizer = map (map (\<lambda>x. x - 1))\<rparr>,
         \<lparr>is_prepared = True, is_repetition = True,
          cumulated_repetition_penalties = [[1.2, 1.2]], apply_penalizer = id\<rparr>],
      batch_size = 1\<rparr>"

definition example_penalized :: "(unit, unit) sampling_info" where
  "example_penalized =
     example_c\<lparr>penalizer_orchestrator := Some example_orchestrator,
       linear_penalties := Some [[5, 5]], scaling_penalties := Some [[9, 9]]\<rparr>"

text \<open>
  A grammar whose mask is a table of booleans, one row per request and one column per
  token, allocated with every token permitted, and whose fill forbids the second token
  of its row. Three rows of which only the middle one carries the grammar.
\<close>

definition example_grammar :: "(bool list list, string) grammar" where
  "example_grammar =
     \<lparr>allocate_vocab_mask = (\<lambda>vsize bs dev. replicate bs (replicate vsize True)),
      fill_vocab_mask = (\<lambda>m i. m[i := [True, False]]),
      apply_vocab_mask = ''ExampleGrammar.apply_vocab_mask''\<rparr>"

definition example_constrained :: "(bool list list, string) sampling_info" where
  "example_constrained =
     \<lparr>temperatures = [1, 0.5, 0.7], top_ps = [0.9, 1, 0.8], top_ks = [1, 40, 1],
      min_ps = [0, 0, 0.1], is_all_greedy = False, need_min_p_sampling = True, vocab_size = 2,
      logit_bias = None, vocab_mask = None, apply_mask = None,
      grammars = Some [None, Some example_grammar, None],
      penalizer_orchestrator = None, linear_penalties = None, scaling_penalties = None,
      device = ''cuda''\<rparr>"

text \<open>
  A backend that compiles JSON schemas and supports nothing else, with grammar objects
  that are strings. Two callers ask for the same JSON key and a third for a regex; every
  task is run to its end, the second caller arriving while the first compiles.
\<close>

definition example_backend :: "string dispatchers" where
  "example_backend =
     \<lparr>dispatch_json = (\<lambda>key_string. Inr (Some (''compiled '' @ key_string))),
      dispatch_regex = not_supported ''regex'',
      dispatch_ebnf = not_supported ''ebnf'',
      dispatch_structural_tag = not_supported ''structural_tag''\<rparr>"

definition example_actions :: "action list" where
  "example_actions =
     [Submit (''json'', ''{}''), Submit (''json'', ''{}''), Submit (''regex'', ''a+''),
      Run 0, Run 1, Run 2, Run 1, Run 0, Run 2, Run 0, Run 2, Run 1, Run 0, Run 1, Run 2]"

text \<open>
  A backend whose JSON compiler raises on every schema. Two callers ask for the same
  JSON key: the first dispatches, the second waits. Then three callers, the scheduler
  giving each of them more turns than a call has steps.
\<close>

definition example_raising_backend :: "string dispatchers" where
  "example_raising_backend =
     \<lparr>dispatch_json = (\<lambda>key_string. Inl (BackendError (''invalid schema: '' @ key_string))),
      dispatch_regex = not_supported ''regex'',
      dispatch_ebnf = not_supported ''ebnf'',
      dispatch_structural_tag = not_supported ''structural_tag''\<rparr>"

definition example_raising_actions :: "action list" where
  "example_raising_actions =
     [Submit (''json'', ''{}''), Submit (''json'', ''{}''), Run 0, Run 1, Run 0, Run 1]"


text \<open>
  Two callers for one JSON key, stopped when the first is about to dispatch and the
  second waits.
\<close>

definition example_waiting_actions :: "action list" where
  "example_waiting_actions =
     [Submit (''json'', ''{}''), Submit (''json'', ''{}''), Run 0, Run 1]"

section \<open>Properties of merge_batch\<close>

lemma merge_bias_tensor_result:
  "merge_bias_tensor lhs rhs bs1 bs2 dev v =
     (if lhs = None \<and> rhs = None then Inr None
      else Inl (TypeError ''cannot create torch.dtype instances''))"
  by (cases lhs; cases rhs) (simp_all add: merge_bias_tensor_def torch_dtype_def and_then_def)

text \<open>
  C4: merge_batch concatenates temperatures, top_ps, top_ks and min_ps with the receiving
  state's rows first and the other state's rows after them, each side in its own order,
  and the merged is_all_greedy is the conjunction of the two flags. This is the state the
  call leaves behind whether it returns or raises; it raises, with a \<open>TypeError\<close>, exactly
  when one of the two states carries a logit bias, and then leaves the bias of the
  receiving state as it was.
\<close>

theorem merge_batch_concatenates:
  "(case merge_batch orch_merge self other of
      Inr merged \<Rightarrow>
        temperatures merged = temperatures self @ temperatures other
        \<and> top_ps merged = top_ps self @ top_ps other
        \<and> top_ks merged = top_ks self @ top_ks other
        \<and> min_ps merged = min_ps self @ min_ps other
        \<and> is_all_greedy merged = (is_all_greedy self \<and> is_all_greedy other)
        \<and> logit_bias self = None \<and> logit_bias other = None
    | Inl (e, merged) \<Rightarrow>
        temperatures merged = temperatures self @ temperatures other
        \<and> top_ps merged = top_ps self @ top_ps other
        \<and> top_ks merged = top_ks self @ top_ks other
        \<and> min_ps merged = min_ps self @ min_ps other
        \<and> is_all_greedy merged = (is_all_greedy self \<and> is_all_greedy other)
        \<and> e = TypeError ''cannot create torch.dtype instances''
        \<and> (logit_bias self \<noteq> None \<or> logit_bias other \<noteq> None)
        \<and> logit_bias merged = logit_bias self)"
  by (simp add: merge_batch_def Let_def merge_bias_tensor_result)

text \<open>
  Rows A, B merged with row C give A, B, C; one side is not greedy, so neither is the
  result. With a logit bias on row C the call raises and leaves the same arrays behind.
\<close>

theorem merge_batch_concatenates_witness:
  "merge_batch (\<lambda>a b. a) example_ab example_c =
     Inr (example_ab\<lparr>temperatures := [1, 0.5, 0.7], top_ps := [0.9, 1, 0.8],
            top_ks := [1, 40, 1], min_ps := [0, 0, 0.1], is_all_greedy := False\<rparr>)
   \<and> merge_batch (\<lambda>a b. a) example_ab example_c_biased =
     Inl (TypeError ''cannot create torch.dtype instances'',
          example_ab\<lparr>temperatures := [1, 0.5, 0.7], top_ps := [0.9, 1, 0.8],
            top_ks := [1, 40, 1], min_ps := [0, 0, 0.1], is_all_greedy := False\<rparr>)"
  using merge_batch_concatenates
    [where orch_merge = "\<lambda>a b. a" and self = example_ab and other = example_c]
    merge_batch_concatenates
    [where orch_merge = "\<lambda>a b. a" and self = example_ab and other = example_c_biased]
  by (simp add: merge_batch_def example_ab_def example_c_def example_c_biased_def Let_def
      merge_bias_tensor_result)

text \<open>
  C3: when only one side carries a logit bias, the other side is to be filled with zero
  rows, one per row it had before the merge, and the two concatenated, so that the merged
  bias has one row per merged request and nothing is raised. The code raises instead, at
  the \<open>with torch.dtype(dtype)\<close> of merge_bias_tensor, before anything is filled or
  concatenated: rows A, B merged with the biased row C, and the biased row C merged with
  rows A, B, both end in a \<open>TypeError\<close>, the receiving state left with the rows of all
  three requests and with the bias it had, none in the first case and one row in the
  second.
\<close>

theorem merge_batch_one_sided_bias_raises:
  "map_sum (\<lambda>(e, merged). (e, len merged, map_option (\<lambda>b. length (rows b)) (logit_bias merged)))
       (\<lambda>merged. (len merged, map_option (\<lambda>b. length (rows b)) (logit_bias merged)))
     (merge_batch (\<lambda>a b. a) example_ab example_c_biased)
     = Inl (TypeError ''cannot create torch.dtype instances'', 3, None)
   \<and> map_sum (\<lambda>(e, merged). (e, len merged, map_option (\<lambda>b. length (rows b)) (logit_bias merged)))
       (\<lambda>merged. (len merged, map_option (\<lambda>b. length (rows b)) (logit_bias merged)))
     (merge_batch (\<lambda>a b. a) example_c_biased example_ab)
     = Inl (TypeError ''cannot create torch.dtype instances'', 3, Some 1)"
  by (simp add: merge_batch_def example_ab_def example_c_biased_def example_c_def Let_def
      merge_bias_tensor_result len_def)

section \<open>Properties of filter_batch\<close>

lemma index_rows_Inr:
  "index_rows xs ni = Inr ys \<Longrightarrow> ys = map (\<lambda>i. xs ! row_index (length xs) i) ni"
  by (auto simp: index_rows_def split: if_splits)

lemma index_rows_Inl:
  "index_rows xs ni = Inl e \<Longrightarrow>
   e = IndexError \<and> (\<exists>i\<in>set ni. \<not> (- int (length xs) \<le> i \<and> i < int (length xs)))"
  by (auto simp: index_rows_def list_all_iff split: if_splits)

lemma index_tensor_Inr:
  "index_tensor b ni = Inr t \<Longrightarrow>
   t = \<lparr>row_shape = row_shape b, rows = map (\<lambda>i. rows b ! row_index (length (rows b)) i) ni\<rparr>"
  by (auto simp: index_tensor_def dest: index_rows_Inr split: sum.splits)

lemma index_tensor_Inl:
  "index_tensor b ni = Inl e \<Longrightarrow>
   e = IndexError
   \<and> (\<exists>i\<in>set ni. \<not> (- int (length (rows b)) \<le> i \<and> i < int (length (rows b))))"
  by (auto simp: index_tensor_def dest: index_rows_Inl split: sum.splits)

lemma map_sum_Some_Inr: "map_sum id Some r = Inr x \<Longrightarrow> \<exists>t. r = Inr t \<and> x = Some t"
  by (cases r) auto

lemma map_sum_Some_Inl: "map_sum id Some r = Inl e \<Longrightarrow> r = Inl e"
  by (cases r) auto

text \<open>
  C5: filter_batch gathers the rows of temperatures, top_ps, top_ks, min_ps and, when
  there is one, of the logit bias in the order of the index list: row \<open>j\<close> of each result
  is the row of the original that the \<open>j\<close>-th index names, so the results have one row
  per index and no other row. The call raises only on an index that lies outside one of
  the arrays.
\<close>

theorem filter_batch_gathers:
  "(case filter_batch orch_filter unfinished_indices new_indices self of
      Inr kept \<Rightarrow>
        temperatures kept =
          map (\<lambda>i. temperatures self ! row_index (length (temperatures self)) i) new_indices
        \<and> top_ps kept = map (\<lambda>i. top_ps self ! row_index (length (top_ps self)) i) new_indices
        \<and> top_ks kept = map (\<lambda>i. top_ks self ! row_index (length (top_ks self)) i) new_indices
        \<and> min_ps kept = map (\<lambda>i. min_ps self ! row_index (length (min_ps self)) i) new_indices
        \<and> logit_bias kept =
            map_option
              (\<lambda>b. \<lparr>row_shape = row_shape b,
                    rows = map (\<lambda>i. rows b ! row_index (length (rows b)) i) new_indices\<rparr>)
              (logit_bias self)
    | Inl e \<Rightarrow>
        e = IndexError
        \<and> (\<exists>i\<in>set new_indices. \<exists>n\<in>set (row_counts self). \<not> (- int n \<le> i \<and> i < int n)))"
proof (cases "filter_batch orch_filter unfinished_indices new_indices self")
  case (Inr kept)
  then show ?thesis
    by (auto simp: filter_batch_def and_then_def
        dest!: index_rows_Inr map_sum_Some_Inr index_tensor_Inr
        split: sum.splits option.splits)
next
  case (Inl e)
  then show ?thesis
    apply (simp add: filter_batch_def and_then_def row_counts_def
        split: sum.splits option.splits)
    by (auto dest!: index_rows_Inl map_sum_Some_Inl index_tensor_Inl)
qed

text \<open>Keeping rows 2 and 0 of A, B, C gives C, A in every array.\<close>

theorem filter_batch_gathers_witness:
  "filter_batch (\<lambda>u n orch. orch) [2, 0] [2, 0] example_abc =
     Inr (example_abc\<lparr>temperatures := [0.7, 1], top_ps := [0.8, 0.9], top_ks := [1, 1],
            min_ps := [0.1, 0],
            logit_bias := Some \<lparr>row_shape = [2], rows = [[0.25, -1], [0, 0]]\<rparr>\<rparr>)"
  using filter_batch_gathers
    [where orch_filter = "\<lambda>u n orch. orch" and unfinished_indices = "[2, 0]"
       and new_indices = "[2, 0]" and self = example_abc]
  by (simp add: filter_batch_def example_abc_def and_then_def index_rows_def
      index_tensor_def row_index_def)

text \<open>
  C10: merge_batch leaves need_min_p_sampling of the receiving state as it was, whatever
  the min_ps of the other state are, also when it raises, and filter_batch leaves
  need_min_p_sampling and is_all_greedy as they were, whatever rows survive.
\<close>

theorem merge_and_filter_keep_flags:
  "(\<forall>merged. merge_batch orch_merge self other = Inr merged \<longrightarrow>
      need_min_p_sampling merged = need_min_p_sampling self)
   \<and> (\<forall>e merged. merge_batch orch_merge self other = Inl (e, merged) \<longrightarrow>
        need_min_p_sampling merged = need_min_p_sampling self)
   \<and> (\<forall>kept. filter_batch orch_filter unfinished_indices new_indices self = Inr kept \<longrightarrow>
        need_min_p_sampling kept = need_min_p_sampling self
        \<and> is_all_greedy kept = is_all_greedy self)"
  by (auto simp: merge_batch_def filter_batch_def Let_def and_then_def split: sum.splits)

text \<open>
  The states built from requests A, B and from request C: A and B need no min-p sampling,
  and merged with C, whose min_p is positive, the flag stays off, while a state built
  from A, B, C has it on. Row B is the only one that is not greedy; with row B filtered
  out of A, B, C the state still says that not all rows are greedy, while a state built
  from A, C says they are.
\<close>

theorem merge_and_filter_keep_flags_witness:
  "(\<exists>merged. merge_batch (\<lambda>a b. a)
        (from_schedule_batch (\<lambda>vsize batch. example_orchestrator)
           \<lparr>reqs = [request_a, request_b], batch_device = ''cuda''\<rparr> 2 True)
        (from_schedule_batch (\<lambda>vsize batch. example_orchestrator)
           \<lparr>reqs = [request_c], batch_device = ''cuda''\<rparr> 2 True)
        = Inr (merged :: (unit, unit) sampling_info)
      \<and> \<not> need_min_p_sampling merged \<and> list_ex (\<lambda>p. p > 0) (min_ps merged))
   \<and> need_min_p_sampling
        (from_schedule_batch (\<lambda>vsize batch. example_orchestrator)
           \<lparr>reqs = [request_a, request_b, request_c], batch_device = ''cuda''\<rparr> 2 True
         :: (unit, unit) sampling_info)
   \<and> (\<exists>kept. filter_batch (\<lambda>u n orch. orch) [0, 2] [0, 2] example_abc = Inr kept
        \<and> \<not> is_all_greedy kept \<and> list_all (\<lambda>k. k \<le> 1) (top_ks kept))
   \<and> is_all_greedy
        (from_schedule_batch (\<lambda>vsize batch. example_orchestrator)
           \<lparr>reqs = [request_a, request_c], batch_device = ''cuda''\<rparr> 2 True
         :: (unit, unit) sampling_info)"
proof -
  have ab: "from_schedule_batch (\<lambda>vsize batch. example_orchestrator)
      \<lparr>reqs = [request_a, request_b], batch_device = ''cuda''\<rparr> 2 True = example_ab"
    by (simp add: from_schedule_batch_def request_a_def request_b_def example_ab_def)
  have c: "from_schedule_batch (\<lambda>vsize batch. example_orchestrator)
      \<lparr>reqs = [request_c], batch_device = ''cuda''\<rparr> 2 True = example_c"
    by (simp add: from_schedule_batch_def request_c_def example_c_def)
  have fresh: "need_min_p_sampling
        (from_schedule_batch (\<lambda>vsize batch. example_orchestrator)
           \<lparr>reqs = [request_a, request_b, request_c], batch_device = ''cuda''\<rparr> 2 True
         :: (unit, unit) sampling_info)"
    "is_all_greedy
        (from_schedule_batch (\<lambda>vsize batch. example_orchestrator)
           \<lparr>reqs = [request_a, request_c], batch_device = ''cuda''\<rparr> 2 True
         :: (unit, unit) sampling_info)"
    by (simp_all add: from_schedule_batch_def request_a_def request_b_def request_c_def)
  obtain merged where m: "merge_batch (\<lambda>a b. a) example_ab example_c = Inr merged"
      and mp: "min_ps merged = [0, 0, 0.1]"
    by (simp add: merge_batch_def example_ab_def example_c_def Let_def
        merge_bias_tensor_def len_def)
  obtain kept where k: "filter_batch (\<lambda>u n orch. orch) [0, 2] [0, 2] example_abc = Inr kept"
      and kk: "top_ks kept = [1, 1]"
    by (simp add: filter_batch_def example_abc_def and_then_def index_rows_def
        index_tensor_def row_index_def)
  have "need_min_p_sampling merged = need_min_p_sampling example_ab"
    using merge_and_filter_keep_flags
      [where orch_merge = "\<lambda>a b. a" and self = example_ab and other = example_c] m
    by blast
  then have stale_min_p: "\<not> need_min_p_sampling merged \<and> list_ex (\<lambda>p. p > 0) (min_ps merged)"
    using mp by (simp add: example_ab_def)
  have "is_all_greedy kept = is_all_greedy example_abc"
    using merge_and_filter_keep_flags
      [where orch_filter = "\<lambda>u n orch. orch" and unfinished_indices = "[0, 2]"
         and new_indices = "[0, 2]" and self = example_abc] k
    by blast
  then have stale_greedy: "\<not> is_all_greedy kept \<and> list_all (\<lambda>k. k \<le> 1) (top_ks kept)"
    using kk by (simp add: example_abc_def)
  show ?thesis
    unfolding ab c using m stale_min_p k stale_greedy fresh by blast
qed

section \<open>Properties of copy\<close>

text \<open>
  C9, as stated, has the copy share the optional logit bias with the original. The
  copy of a state that carries a logit bias carries none.
\<close>

theorem copy_drops_logit_bias:
  "logit_bias (copy example_abc) = None
   \<and> logit_bias example_abc = Some \<lparr>row_shape = [2], rows = [[0, 0], [0, 0], [0.25, -1]]\<rparr>"
  by (simp add: copy_def example_abc_def)

text \<open>
  C9, amended: copy returns a new object, different from the original, that holds the
  same temperatures, top_ps, top_ks and min_ps as the original (whatever the fields hold,
  so the same tensor objects when they hold references) and its flags, vocabulary size
  and device; the copy's vocabulary mask, mask-application routine, penalty buffers and
  orchestrator are absent; the original is as it was, and stays so under any later
  assignment to the copy.
\<close>

theorem copy_shares_rows_and_clears_derived_state:
  assumes "self < length heap" and "copy_object heap self = (heap', new)"
  shows "new \<noteq> self \<and> new < length heap' \<and> heap' ! self = heap ! self
       \<and> temperatures (heap' ! new) = temperatures (heap ! self)
       \<and> top_ps (heap' ! new) = top_ps (heap ! self)
       \<and> top_ks (heap' ! new) = top_ks (heap ! self)
       \<and> min_ps (heap' ! new) = min_ps (heap ! self)
       \<and> is_all_greedy (heap' ! new) = is_all_greedy (heap ! self)
       \<and> need_min_p_sampling (heap' ! new) = need_min_p_sampling (heap ! self)
       \<and> vocab_size (heap' ! new) = vocab_size (heap ! self)
       \<and> device (heap' ! new) = device (heap ! self)
       \<and> vocab_mask (heap' ! new) = None
       \<and> apply_mask (heap' ! new) = None
       \<and> linear_penalties (heap' ! new) = None
       \<and> scaling_penalties (heap' ! new) = None
       \<and> penalizer_orchestrator (heap' ! new) = None
       \<and> (\<forall>upd. (heap'[new := upd (heap' ! new)]) ! self = heap ! self)"
proof -
  from assms(2) have h: "heap' = heap @ [copy (heap ! self)]" and n: "new = length heap"
    by (simp_all add: copy_object_def)
  from assms(1) n have ne: "new \<noteq> self" by simp
  have at_new: "heap' ! new = copy (heap ! self)" by (simp add: h n)
  have at_self: "heap' ! self = heap ! self" using assms(1) by (simp add: h nth_append)
  have "\<forall>upd. (heap'[new := upd (heap' ! new)]) ! self = heap ! self"
    using ne at_self by simp
  then show ?thesis
    using ne at_self by (simp add: at_new copy_def) (simp add: h n)
qed

text \<open>
  The copy of the object at address 0 is the object at address 1: it holds tensor 0 as
  its temperatures, as the original does, and no mask, while the original keeps mask 5.
\<close>

theorem copy_shares_rows_and_clears_derived_state_witness:
  "copy_object [example_object] 0 =
     ([example_object,
       example_object\<lparr>logit_bias := None, vocab_mask := None, apply_mask := None,
         grammars := None, penalizer_orchestrator := None, linear_penalties := None,
         scaling_penalties := None\<rparr>], 1)
   \<and> temperatures (fst (copy_object [example_object] 0) ! 1) = 0
   \<and> vocab_mask (fst (copy_object [example_object] 0) ! 1) = None
   \<and> vocab_mask (fst (copy_object [example_object] 0) ! 0) = Some 5"
  using copy_shares_rows_and_clears_derived_state
    [where heap = "[example_object]" and self = 0
       and heap' = "fst (copy_object [example_object] 0)"
       and new = "snd (copy_object [example_object] 0)"]
  by (simp add: copy_object_def copy_def example_object_def)

section \<open>Properties of update_penalties\<close>

text \<open>The loop changes the two penalty buffers and nothing else.\<close>

lemma penalty_loop_updates_buffers_only:
  "penalty_loop orch ps s =
     s\<lparr>scaling_penalties := scaling_penalties (penalty_loop orch ps s),
       linear_penalties := linear_penalties (penalty_loop orch ps s)\<rparr>"
proof (induction ps arbitrary: s)
  case Nil
  show ?case by simp
next
  case (Cons p ps)
  define s' where "s' =
    (if \<not> is_prepared p then s
     else if is_repetition p
       then s\<lparr>scaling_penalties := Some (cumulated_repetition_penalties p)\<rparr>
     else
       (let zeroed =
          (case linear_penalties s of
             None \<Rightarrow> s\<lparr>linear_penalties :=
                        Some (replicate (batch_size orch) (replicate (vocab_size s) 0))\<rparr>
           | Some _ \<Rightarrow> s)
        in zeroed\<lparr>linear_penalties :=
                    map_option (apply_penalizer p) (linear_penalties zeroed)\<rparr>))"
  have unfold: "penalty_loop orch (p # ps) s = penalty_loop orch ps s'"
    by (simp add: s'_def)
  have s': "s' = s\<lparr>scaling_penalties := scaling_penalties s',
                      linear_penalties := linear_penalties s'\<rparr>"
    by (simp add: s'_def Let_def split: option.splits)
  have "penalty_loop orch ps s' =
      s'\<lparr>scaling_penalties := scaling_penalties (penalty_loop orch ps s'),
         linear_penalties := linear_penalties (penalty_loop orch ps s')\<rparr>"
    by (rule Cons.IH)
  also have "\<dots> =
      s\<lparr>scaling_penalties := scaling_penalties (penalty_loop orch ps s'),
        linear_penalties := linear_penalties (penalty_loop orch ps s')\<rparr>"
    by (subst s') simp
  finally show ?case unfolding unfold .
qed

text \<open>
  C6: for a state with a penalizer orchestrator, a second call of update_penalties right
  after the first leaves the state, and so both penalty buffers, exactly as the first
  call left it, and what a call produces does not depend on the buffers it finds: it
  discards them and recomputes both from the penalizers.
\<close>

theorem update_penalties_recomputes:
  assumes "penalizer_orchestrator self = Some orch"
  shows "update_penalties (update_penalties self) = update_penalties self
       \<and> update_penalties (self\<lparr>linear_penalties := stale_linear,
                                  scaling_penalties := stale_scaling\<rparr>) = update_penalties self"
proof -
  let ?reset = "self\<lparr>scaling_penalties := None, linear_penalties := None\<rparr>"
  have u: "update_penalties self = penalty_loop orch (penalizers orch) ?reset"
    using assms by (simp add: update_penalties_def)
  have o: "penalizer_orchestrator (update_penalties self) = Some orch"
    unfolding u by (subst penalty_loop_updates_buffers_only) (simp add: assms)
  have r: "(update_penalties self)\<lparr>scaling_penalties := None, linear_penalties := None\<rparr> = ?reset"
    unfolding u by (subst penalty_loop_updates_buffers_only) simp
  have "update_penalties (update_penalties self) = penalty_loop orch (penalizers orch) ?reset"
    using o r by (simp add: update_penalties_def)
  moreover have "update_penalties (self\<lparr>linear_penalties := stale_linear,
      scaling_penalties := stale_scaling\<rparr>) = penalty_loop orch (penalizers orch) ?reset"
    using assms by (simp add: update_penalties_def)
  ultimately show ?thesis using u by simp
qed

text \<open>
  One row over two tokens, a prepared frequency penalizer that subtracts 1 and a prepared
  repetition penalizer, and stale buffers of fives and nines: both calls give the same
  fresh buffers.
\<close>

theorem update_penalties_recomputes_witness:
  "linear_penalties (update_penalties example_penalized) = Some [[-1, -1]]
   \<and> scaling_penalties (update_penalties example_penalized) = Some [[1.2, 1.2]]
   \<and> update_penalties (update_penalties example_penalized) = update_penalties example_penalized"
  using update_penalties_recomputes
    [where self = example_penalized and orch = example_orchestrator]
  by (simp add: example_penalized_def example_c_def example_orchestrator_def update_penalties_def
      Let_def numeral_2_eq_2)

section \<open>Properties of update_regex_vocab_mask\<close>

lemma constrained_rows_simps:
  "constrained_rows i [] = []"
  "constrained_rows i (None # gs) = constrained_rows (Suc i) gs"
  "constrained_rows i (Some g # gs) = (i, g) # constrained_rows (Suc i) gs"
  by (simp_all add: constrained_rows_def)

lemma fill_rows_foldl:
  "fill_rows i gs m = foldl (\<lambda>m (j, g). fill_vocab_mask g m j) m (constrained_rows i gs)"
proof (induction gs arbitrary: i m)
  case Nil
  show ?case by (simp add: constrained_rows_simps)
next
  case (Cons g gs)
  show ?case by (cases g) (simp_all add: constrained_rows_simps Cons.IH)
qed

lemma fill_rows_untouched:
  assumes "\<forall>g\<in>set gs. \<forall>grammar. g = Some grammar \<longrightarrow>
             (\<forall>m i. i \<noteq> j \<longrightarrow> row_of (fill_vocab_mask grammar m i) j = row_of m j)"
    and "j < i \<or> i + length gs \<le> j \<or> gs ! (j - i) = None"
  shows "row_of (fill_rows i gs m) j = row_of m j"
  using assms
proof (induction gs arbitrary: i m)
  case Nil
  show ?case by simp
next
  case (Cons g gs)
  have tail: "j < Suc i \<or> Suc i + length gs \<le> j \<or> gs ! (j - Suc i) = None"
    using Cons.prems(2) by (cases "j \<le> i") (auto simp: nth_Cons' Suc_diff_Suc split: if_splits)
  have ne: "g \<noteq> None \<Longrightarrow> i \<noteq> j"
    using Cons.prems(2) by auto
  have "row_of (fill_rows (Suc i) gs m') j = row_of m' j" for m'
    using Cons.IH [OF _ tail] Cons.prems(1) by simp
  then show ?case
    using Cons.prems(1) ne by (cases g) auto
qed

lemma find_grammar:
  "find (\<lambda>g. g \<noteq> None) gs = None \<longleftrightarrow> (\<forall>g\<in>set gs. g = None)"
  by (auto simp: find_None_iff)

lemma update_regex_vocab_mask_constrained:
  assumes "grammars self = Some gs" and "find (\<lambda>g. g \<noteq> None) gs = Some (Some grammar)"
  shows "vocab_mask (update_regex_vocab_mask self) =
           Some (fill_rows 0 gs (allocate_vocab_mask grammar (vocab_size self)
                                   (length (temperatures self)) (device self)))"
    and "apply_mask (update_regex_vocab_mask self) = Some (apply_vocab_mask grammar)"
  using assms by (simp_all add: update_regex_vocab_mask_def)

text \<open>
  C7: when no row carries a grammar object, update_regex_vocab_mask leaves the state with
  no vocabulary mask and no mask-application routine. When some row does, the mask is the
  one the first such grammar allocates for the vocabulary size and for as many rows as the
  batch has, filled by exactly the rows that carry a grammar, each by its own grammar and
  under its own row number, in row order; the routine is that of the first grammar. If
  filling a row leaves the other rows as they are, every row without a grammar is as it
  was allocated.
\<close>

theorem update_regex_vocab_mask_fills_constrained_rows:
  "((grammars self = None \<or> (\<exists>gs. grammars self = Some gs \<and> (\<forall>g\<in>set gs. g = None))) \<longrightarrow>
      vocab_mask (update_regex_vocab_mask self) = None
      \<and> apply_mask (update_regex_vocab_mask self) = None)
   \<and> (grammars self = Some gs \<and> (\<exists>g\<in>set gs. g \<noteq> None) \<longrightarrow>
        (\<exists>grammar.
           find (\<lambda>g. g \<noteq> None) gs = Some (Some grammar)
           \<and> apply_mask (update_regex_vocab_mask self) = Some (apply_vocab_mask grammar)
           \<and> vocab_mask (update_regex_vocab_mask self) =
               Some (foldl (\<lambda>m (j, g). fill_vocab_mask g m j)
                       (allocate_vocab_mask grammar (vocab_size self)
                          (length (temperatures self)) (device self))
                       (constrained_rows 0 gs))))
   \<and> (grammars self = Some gs \<and> find (\<lambda>g. g \<noteq> None) gs = Some (Some first)
        \<and> (\<forall>g\<in>set gs. \<forall>grammar. g = Some grammar \<longrightarrow>
              (\<forall>m i. i \<noteq> j \<longrightarrow> row_of (fill_vocab_mask grammar m i) j = row_of m j))
        \<and> (length gs \<le> j \<or> gs ! j = None) \<longrightarrow>
        map_option (\<lambda>m. row_of m j) (vocab_mask (update_regex_vocab_mask self)) =
          Some (row_of (allocate_vocab_mask first (vocab_size self)
                          (length (temperatures self)) (device self)) j))"
proof (intro conjI impI)
  assume "grammars self = None \<or> (\<exists>gs. grammars self = Some gs \<and> (\<forall>g\<in>set gs. g = None))"
  then show "vocab_mask (update_regex_vocab_mask self) = None"
    and "apply_mask (update_regex_vocab_mask self) = None"
    by (auto simp: update_regex_vocab_mask_def find_grammar [symmetric] split: option.splits)
next
  assume a: "grammars self = Some gs \<and> (\<exists>g\<in>set gs. g \<noteq> None)"
  then have "find (\<lambda>g. g \<noteq> None) gs \<noteq> None"
    using find_grammar [of gs] by blast
  then obtain g where f: "find (\<lambda>g. g \<noteq> None) gs = Some g" by blast
  then have "g \<noteq> None" unfolding find_Some_iff by blast
  then obtain grammar where g: "find (\<lambda>g. g \<noteq> None) gs = Some (Some grammar)"
    using f by blast
  show "\<exists>grammar.
           find (\<lambda>g. g \<noteq> None) gs = Some (Some grammar)
           \<and> apply_mask (update_regex_vocab_mask self) = Some (apply_vocab_mask grammar)
           \<and> vocab_mask (update_regex_vocab_mask self) =
               Some (foldl (\<lambda>m (j, g). fill_vocab_mask g m j)
                       (allocate_vocab_mask grammar (vocab_size self)
                          (length (temperatures self)) (device self))
                       (constrained_rows 0 gs))"
    using g update_regex_vocab_mask_constrained [of self gs grammar] a
    by (auto simp: fill_rows_foldl)
next
  assume a: "grammars self = Some gs \<and> find (\<lambda>g. g \<noteq> None) gs = Some (Some first)
        \<and> (\<forall>g\<in>set gs. \<forall>grammar. g = Some grammar \<longrightarrow>
              (\<forall>m i. i \<noteq> j \<longrightarrow> row_of (fill_vocab_mask grammar m i) j = row_of m j))
        \<and> (length gs \<le> j \<or> gs ! j = None)"
  let ?allocated = "allocate_vocab_mask first (vocab_size self)
                          (length (temperatures self)) (device self)"
  have "row_of (fill_rows 0 gs ?allocated) j = row_of ?allocated j"
    by (rule fill_rows_untouched) (use a in auto)
  then show "map_option (\<lambda>m. row_of m j) (vocab_mask (update_regex_vocab_mask self)) =
          Some (row_of ?allocated j)"
    using a update_regex_vocab_mask_constrained(1) [of self gs first] by simp
qed


text \<open>
  Three rows over two tokens, a grammar on the middle row only: the mask has three rows,
  the middle one restricted and the other two as allocated. Without grammars there is no
  mask and no routine.
\<close>

theorem update_regex_vocab_mask_fills_constrained_rows_witness:
  "vocab_mask (update_regex_vocab_mask example_constrained) =
     Some [[True, True], [True, False], [True, True]]
   \<and> apply_mask (update_regex_vocab_mask example_constrained) =
       Some ''ExampleGrammar.apply_vocab_mask''
   \<and> vocab_mask (update_regex_vocab_mask (example_constrained\<lparr>grammars := None\<rparr>)) = None
   \<and> apply_mask (update_regex_vocab_mask (example_constrained\<lparr>grammars := None\<rparr>)) = None"
proof -
  let ?gs = "[None, Some example_grammar, None]"
  note main = update_regex_vocab_mask_fills_constrained_rows
  have some: "grammars example_constrained = Some ?gs \<and> (\<exists>g\<in>set ?gs. g \<noteq> None)"
    by (simp add: example_constrained_def)
  have first: "find (\<lambda>g. g \<noteq> None) ?gs = Some (Some example_grammar)"
    by simp
  have rows: "constrained_rows 0 ?gs = [(1, example_grammar)]"
    by (simp add: constrained_rows_def)
  obtain grammar where g: "find (\<lambda>g. g \<noteq> None) ?gs = Some (Some grammar)"
    and am: "apply_mask (update_regex_vocab_mask example_constrained) =
               Some (apply_vocab_mask grammar)"
    and vm: "vocab_mask (update_regex_vocab_mask example_constrained) =
               Some (foldl (\<lambda>m (j, g). fill_vocab_mask g m j)
                       (allocate_vocab_mask grammar (vocab_size example_constrained)
                          (length (temperatures example_constrained))
                          (device example_constrained))
                       (constrained_rows 0 ?gs))"
    using main [where self = example_constrained and gs = ?gs, THEN conjunct2, THEN conjunct1,
        rule_format, OF some]
    by blast
  from g first have eq: "grammar = example_grammar" by simp
  have a: "vocab_mask (update_regex_vocab_mask example_constrained) =
      Some [[True, True], [True, False], [True, True]]"
    unfolding vm eq rows
    by (simp add: example_constrained_def example_grammar_def numeral_2_eq_2 numeral_3_eq_3)
  have b: "apply_mask (update_regex_vocab_mask example_constrained) =
      Some ''ExampleGrammar.apply_vocab_mask''"
    unfolding am eq by (simp add: example_grammar_def)
  have "grammars (example_constrained\<lparr>grammars := None\<rparr>) = None" by simp
  then have c: "vocab_mask (update_regex_vocab_mask (example_constrained\<lparr>grammars := None\<rparr>)) = None
      \<and> apply_mask (update_regex_vocab_mask (example_constrained\<lparr>grammars := None\<rparr>)) = None"
    using main [where self = "example_constrained\<lparr>grammars := None\<rparr>", THEN conjunct1]
    by blast
  show ?thesis using a b c by blast
qed

section \<open>Properties of the grammar cache\<close>

subsection \<open>The steps of a task, case by case\<close>

lemma step_out_of_range: "length (executor s) \<le> i \<Longrightarrow> step be cp i s = s"
  by (simp add: step_def)

lemma step_Start_hit:
  "i < length (executor s) \<Longrightarrow> executor s ! i = Start k \<Longrightarrow> cache s k = Some e \<Longrightarrow>
   step be cp i s = s\<lparr>executor := (executor s)[i := Waiting k e]\<rparr>"
  by (simp add: step_def)

lemma step_Start_miss:
  "i < length (executor s) \<Longrightarrow> executor s ! i = Start k \<Longrightarrow> cache s k = None \<Longrightarrow>
   step be cp i s =
     s\<lparr>cache := (cache s)(k \<mapsto> length (entries s)),
       entries := entries s @ [\<lparr>entry_value = None, event = False\<rparr>],
       executor := (executor s)[i := Dispatching k (length (entries s))]\<rparr>"
  by (simp add: step_def)

lemma step_Waiting:
  "i < length (executor s) \<Longrightarrow> executor s ! i = Waiting k e \<Longrightarrow>
   step be cp i s =
     (if event (entries s ! e) then s\<lparr>executor := (executor s)[i := Returning k e]\<rparr> else s)"
  by (simp add: step_def)

lemma step_Dispatching_raises:
  "i < length (executor s) \<Longrightarrow> executor s ! i = Dispatching k e \<Longrightarrow>
   init_value_dispatch be k = Inl err \<Longrightarrow>
   step be cp i s =
     s\<lparr>executor := (executor s)[i := Raised k err], dispatched := dispatched s @ [k]\<rparr>"
  by (simp add: step_def)

lemma step_Dispatching_none:
  "i < length (executor s) \<Longrightarrow> executor s ! i = Dispatching k e \<Longrightarrow>
   init_value_dispatch be k = Inr None \<Longrightarrow>
   step be cp i s =
     s\<lparr>entries := (entries s)[e := (entries s ! e)\<lparr>entry_value := None\<rparr>],
       executor := (executor s)[i := Signalling k e],
       dispatched := dispatched s @ [k]\<rparr>"
  by (simp add: step_def)

lemma step_Dispatching_some:
  "i < length (executor s) \<Longrightarrow> executor s ! i = Dispatching k e \<Longrightarrow>
   init_value_dispatch be k = Inr (Some p) \<Longrightarrow>
   step be cp i s =
     s\<lparr>objects := objects s @ [p],
       entries := (entries s)[e := (entries s ! e)\<lparr>entry_value := Some (length (objects s))\<rparr>],
       executor := (executor s)[i := Signalling k e],
       dispatched := dispatched s @ [k]\<rparr>"
  by (simp add: step_def)

lemma step_Signalling:
  "i < length (executor s) \<Longrightarrow> executor s ! i = Signalling k e \<Longrightarrow>
   step be cp i s =
     s\<lparr>entries := (entries s)[e := (entries s ! e)\<lparr>event := True\<rparr>],
       executor := (executor s)[i := Returning k e]\<rparr>"
  by (simp add: step_def)

lemma step_Returning_none:
  "i < length (executor s) \<Longrightarrow> executor s ! i = Returning k e \<Longrightarrow>
   entry_value (entries s ! e) = None \<Longrightarrow>
   step be cp i s = s\<lparr>executor := (executor s)[i := Returned k None]\<rparr>"
  by (simp add: step_def)

lemma step_Returning_some:
  "i < length (executor s) \<Longrightarrow> executor s ! i = Returning k e \<Longrightarrow>
   entry_value (entries s ! e) = Some c \<Longrightarrow>
   step be cp i s =
     s\<lparr>objects := objects s @ [cp (objects s ! c)],
       executor := (executor s)[i := Returned k (Some (length (objects s)))]\<rparr>"
  by (simp add: step_def)

lemma step_finished:
  "i < length (executor s) \<Longrightarrow> executor s ! i = Returned k r \<or> executor s ! i = Raised k err \<Longrightarrow>
   step be cp i s = s"
  by (auto simp: step_def)

subsection \<open>What a step leaves true of the other tasks\<close>

lemma entries_ok_in_range:
  "entries_ok s \<Longrightarrow> cache s k = Some e \<Longrightarrow> e < length (entries s)"
  unfolding entries_ok_def by blast

lemma entries_ok_inj:
  "entries_ok s \<Longrightarrow> cache s k = Some e \<Longrightarrow> cache s k' = Some e \<Longrightarrow> k = k'"
  unfolding entries_ok_def by blast

lemma entries_ok_value:
  "entries_ok s \<Longrightarrow> cache s k = Some e \<Longrightarrow> entry_value (entries s ! e) = Some c \<Longrightarrow>
   c < length (objects s)"
  unfolding entries_ok_def by blast

lemma task_ok_executor [simp]: "task_ok cp (s\<lparr>executor := x\<rparr>) t = task_ok cp s t"
  by (cases t) (auto split: option.splits prod.splits)

lemma task_ok_new_entry:
  assumes "entries_ok s" and "cache s k = None" and "task_ok cp s t"
  shows "task_ok cp (s\<lparr>cache := (cache s)(k \<mapsto> length (entries s)),
                        entries := entries s @ [new]\<rparr>) t"
proof -
  have in_range: "cache s k' = Some e \<Longrightarrow> e < length (entries s)" for k' e
    using assms(1) by (rule entries_ok_in_range)
  show ?thesis
    using assms(2,3)
    by (cases t) (auto simp: nth_append dest: in_range split: option.splits prod.splits)
qed

lemma task_ok_logged:
  assumes "task_ok cp s t" and "\<not> owns k t"
  shows "task_ok cp (s\<lparr>dispatched := dispatched s @ [k]\<rparr>) t"
  using assms by (cases t) (auto split: option.splits)

lemma task_ok_more_objects:
  assumes "entries_ok s" and "task_ok cp s t"
  shows "task_ok cp (s\<lparr>objects := objects s @ xs\<rparr>) t"
proof -
  have in_range: "cache s k' = Some e \<Longrightarrow> entry_value (entries s ! e) = Some c \<Longrightarrow>
      c < length (objects s)" for k' e c
    using assms(1) by (rule entries_ok_value)
  show ?thesis
    using assms(2)
    by (cases t) (auto simp: nth_append dest: in_range split: option.splits prod.splits)
qed

lemma task_ok_stored:
  assumes "entries_ok s" and "cache s k = Some e" and "\<not> event (entries s ! e)"
    and "task_ok cp s t" and "\<not> owns k t"
  shows "task_ok cp (s\<lparr>entries := (entries s)[e := (entries s ! e)\<lparr>entry_value := v\<rparr>]\<rparr>) t"
proof -
  have e: "e < length (entries s)"
    using assms(1,2) by (rule entries_ok_in_range)
  have other: "cache s k' = Some e' \<Longrightarrow> k' \<noteq> k \<Longrightarrow> e' \<noteq> e" for k' e'
    using assms(1,2) entries_ok_inj by blast
  show ?thesis
  proof (cases t)
    case (Returning k' e')
    then have "e' \<noteq> e" using assms(3,4) by auto
    then show ?thesis using Returning assms(4) by simp
  next
    case (Returned k' r)
    then obtain e' where "cache s k' = Some e'" "event (entries s ! e')"
      using assms(4) by (auto split: option.splits)
    then have "e' \<noteq> e" using assms(3) by auto
    then show ?thesis using Returned assms(4) \<open>cache s k' = Some e'\<close>
      by (auto split: option.splits)
  qed (use assms(4,5) e other in \<open>auto simp: nth_list_update\<close>)
qed

lemma task_ok_signalled:
  assumes "entries_ok s" and "cache s k = Some e" and "task_ok cp s t" and "\<not> owns k t"
  shows "task_ok cp (s\<lparr>entries := (entries s)[e := (entries s ! e)\<lparr>event := True\<rparr>]\<rparr>) t"
proof -
  have e: "e < length (entries s)"
    using assms(1,2) by (rule entries_ok_in_range)
  have other: "cache s k' = Some e' \<Longrightarrow> k' \<noteq> k \<Longrightarrow> e' \<noteq> e" for k' e'
    using assms(1,2) entries_ok_inj by blast
  show ?thesis
    using assms(3,4) e other
    by (cases t) (auto simp: nth_list_update split: option.splits prod.splits)
qed

subsection \<open>Updating one task\<close>

lemma no_owner_without_entry:
  assumes "tasks_ok cp s" and "cache s k = None" and "j < length (executor s)"
  shows "\<not> owns k (executor s ! j)"
proof -
  have "task_ok cp s (executor s ! j)" using assms(1,3) by (simp add: tasks_ok_def)
  then show ?thesis using assms(2) by (cases "executor s ! j") auto
qed

lemma single_owner_update:
  assumes "single_owner s" and "i < length (executor s)"
    and "executor s' = (executor s)[i := t]"
    and "\<And>k j. owns k t \<Longrightarrow> j < length (executor s) \<Longrightarrow> j \<noteq> i \<Longrightarrow>
           \<not> owns k (executor s ! j)"
  shows "single_owner s'"
  unfolding single_owner_def
proof (intro allI impI)
  fix a b k
  assume a: "a < length (executor s')" and b: "b < length (executor s')"
    and oa: "owns k (executor s' ! a)" and ob: "owns k (executor s' ! b)"
  show "a = b"
  proof (rule ccontr)
    assume ne: "a \<noteq> b"
    have la: "a < length (executor s)" and lb: "b < length (executor s)"
      using a b assms(3) by simp_all
    consider "a = i" | "b = i" | "a \<noteq> i" "b \<noteq> i" by blast
    then show False
    proof cases
      case 1
      then have "owns k t" using oa assms(2,3) by simp
      moreover have "owns k (executor s ! b)" using ob ne 1 assms(3) by simp
      ultimately show False using assms(4) [of k b] lb ne 1 by blast
    next
      case 2
      then have "owns k t" using ob assms(2,3) by simp
      moreover have "owns k (executor s ! a)" using oa ne 2 assms(3) by simp
      ultimately show False using assms(4) [of k a] la ne 2 by blast
    next
      case 3
      then have "owns k (executor s ! a)" "owns k (executor s ! b)"
        using oa ob assms(3) by simp_all
      then show False using assms(1) la lb ne unfolding single_owner_def by blast
    qed
  qed
qed

lemma others_do_not_own:
  assumes "single_owner s" and "i < length (executor s)" and "owns k (executor s ! i)"
    and "j < length (executor s)" and "j \<noteq> i"
  shows "\<not> owns k (executor s ! j)"
  using assms unfolding single_owner_def by blast

lemma results_apart_update:
  assumes "results_apart s" and "i < length (executor s)"
    and "executor s' = (executor s)[i := t]"
    and "\<And>k a j k'. t = Returned k (Some a) \<Longrightarrow> j < length (executor s) \<Longrightarrow> j \<noteq> i \<Longrightarrow>
           executor s ! j \<noteq> Returned k' (Some a)"
  shows "results_apart s'"
  unfolding results_apart_def
proof (intro allI impI)
  fix a b k k' x
  assume a: "a < length (executor s')" and b: "b < length (executor s')"
    and ra: "executor s' ! a = Returned k (Some x)" and rb: "executor s' ! b = Returned k' (Some x)"
  show "a = b"
  proof (rule ccontr)
    assume ne: "a \<noteq> b"
    have la: "a < length (executor s)" and lb: "b < length (executor s)"
      using a b assms(3) by simp_all
    consider "a = i" | "b = i" | "a \<noteq> i" "b \<noteq> i" by blast
    then show False
    proof cases
      case 1
      then have "t = Returned k (Some x)" using ra assms(2,3) by simp
      moreover have "executor s ! b = Returned k' (Some x)" using rb ne 1 assms(3) by simp
      ultimately show False using assms(4) [of k x b k'] lb ne 1 by blast
    next
      case 2
      then have "t = Returned k' (Some x)" using rb assms(2,3) by simp
      moreover have "executor s ! a = Returned k (Some x)" using ra ne 2 assms(3) by simp
      ultimately show False using assms(4) [of k' x a k] la ne 2 by blast
    next
      case 3
      then have "executor s ! a = Returned k (Some x)" "executor s ! b = Returned k' (Some x)"
        using ra rb assms(3) by simp_all
      then show False using assms(1) la lb ne unfolding results_apart_def by blast
    qed
  qed
qed

lemma tasks_ok_update:
  assumes "i < length (executor s)" and "executor s' = (executor s)[i := t]"
    and "task_ok cp s' t"
    and "\<And>j. j < length (executor s) \<Longrightarrow> j \<noteq> i \<Longrightarrow> task_ok cp s' (executor s ! j)"
  shows "tasks_ok cp s'"
  unfolding tasks_ok_def using assms by (auto simp: nth_list_update)

subsection \<open>Each step keeps the invariant\<close>

lemma entries_ok_executor [simp]: "entries_ok (s\<lparr>executor := x\<rparr>) = entries_ok s"
  by (simp add: entries_ok_def)

lemma log_ok_executor [simp]: "log_ok (s\<lparr>executor := x\<rparr>) = log_ok s"
  by (simp add: log_ok_def)

lemma log_ok_not_dispatched:
  "log_ok s \<Longrightarrow> cache s k = None \<Longrightarrow> k \<notin> set (dispatched s)"
  unfolding log_ok_def by blast

lemma log_ok_distinct: "log_ok s \<Longrightarrow> distinct (dispatched s)"
  unfolding log_ok_def by blast

lemma cache_inv_task_moves:
  assumes inv: "cache_inv cp s" and i: "i < length (executor s)"
    and ok: "task_ok cp s t"
    and own: "\<And>k. owns k t \<Longrightarrow> owns k (executor s ! i)"
    and res: "\<And>k r. t \<noteq> Returned k (Some r)"
  shows "cache_inv cp (s\<lparr>executor := (executor s)[i := t]\<rparr>)"
proof -
  let ?s' = "s\<lparr>executor := (executor s)[i := t]\<rparr>"
  have "tasks_ok cp ?s'"
    by (rule tasks_ok_update [OF i, of _ t]) (use inv ok in \<open>auto simp: cache_inv_def tasks_ok_def\<close>)
  moreover have "single_owner ?s'"
  proof (rule single_owner_update [OF _ i, of _ t])
    show "single_owner s" using inv by (simp add: cache_inv_def)
    show "executor ?s' = (executor s)[i := t]" by simp
    fix k j assume "owns k t" "j < length (executor s)" "j \<noteq> i"
    then show "\<not> owns k (executor s ! j)"
      using others_do_not_own [of s i k j] inv i own by (auto simp: cache_inv_def)
  qed
  moreover have "results_apart ?s'"
    by (rule results_apart_update [OF _ i, of _ t]) (use inv res in \<open>auto simp: cache_inv_def\<close>)
  ultimately show ?thesis using inv by (simp add: cache_inv_def)
qed

lemma cache_inv_Start_miss:
  assumes inv: "cache_inv cp s" and i: "i < length (executor s)"
    and miss: "cache s k = None"
  shows "cache_inv cp
     (s\<lparr>cache := (cache s)(k \<mapsto> length (entries s)),
        entries := entries s @ [\<lparr>entry_value = None, event = False\<rparr>],
        executor := (executor s)[i := Dispatching k (length (entries s))]\<rparr>)"
    (is "cache_inv cp ?s'")
proof -
  have eo: "entries_ok s" and to: "tasks_ok cp s" and so: "single_owner s" and lo: "log_ok s"
    and ra: "results_apart s"
    using inv by (simp_all add: cache_inv_def)
  have r: "cache s k' = Some e \<Longrightarrow> e < length (entries s)" for k' e
    using eo by (rule entries_ok_in_range)
  have "entries_ok ?s'"
    unfolding entries_ok_def
  proof (intro conjI allI impI)
    fix k' e assume "cache ?s' k' = Some e"
    then show "e < length (entries ?s')" using r [of k' e] by (auto split: if_splits)
  next
    fix k1 k2 e assume "cache ?s' k1 = Some e" "cache ?s' k2 = Some e"
    then show "k1 = k2"
      using r [of k1 e] r [of k2 e] entries_ok_inj [OF eo, of k1 e k2]
      by (auto split: if_splits)
  next
    fix e c assume "e < length (entries ?s')" "entry_value (entries ?s' ! e) = Some c"
    then show "c < length (objects ?s')"
      using eo unfolding entries_ok_def by (auto simp: nth_append split: if_splits)
  qed
  moreover have "tasks_ok cp ?s'"
  proof (rule tasks_ok_update [OF i])
    show "executor ?s' = (executor s)[i := Dispatching k (length (entries s))]" by simp
    show "task_ok cp ?s' (Dispatching k (length (entries s)))"
      using log_ok_not_dispatched [OF lo miss] by simp
    fix j assume "j < length (executor s)" "j \<noteq> i"
    then have "task_ok cp s (executor s ! j)" using to by (simp add: tasks_ok_def)
    then show "task_ok cp ?s' (executor s ! j)"
      using task_ok_new_entry [OF eo miss, of cp "executor s ! j"] by simp
  qed
  moreover have "single_owner ?s'"
  proof (rule single_owner_update [OF so i])
    show "executor ?s' = (executor s)[i := Dispatching k (length (entries s))]" by simp
    fix k' j assume "owns k' (Dispatching k (length (entries s)))" "j < length (executor s)"
    then show "\<not> owns k' (executor s ! j)"
      using no_owner_without_entry [OF to miss, of j] by simp
  qed
  moreover have "log_ok ?s'"
    unfolding log_ok_def
  proof (intro conjI allI impI)
    fix k' assume "cache ?s' k' = None"
    then have "cache s k' = None" by (simp split: if_splits)
    then show "k' \<notin> set (dispatched ?s')"
      using log_ok_not_dispatched [OF lo] by simp
  next
    show "distinct (dispatched ?s')" using log_ok_distinct [OF lo] by simp
  qed
  moreover have "results_apart ?s'"
    by (rule results_apart_update [OF ra i, of _ "Dispatching k (length (entries s))"]) auto
  ultimately show ?thesis by (simp add: cache_inv_def)
qed

lemma task_ok_cong:
  "cache s' = cache s \<Longrightarrow> entries s' = entries s \<Longrightarrow> objects s' = objects s \<Longrightarrow>
   dispatched s' = dispatched s \<Longrightarrow> task_ok cp s' t = task_ok cp s t"
  by (cases t) (auto split: option.splits prod.splits)

lemma cache_inv_Dispatching_raises:
  assumes inv: "cache_inv cp s" and i: "i < length (executor s)"
    and at: "executor s ! i = Dispatching k e"
  shows "cache_inv cp
     (s\<lparr>executor := (executor s)[i := Raised k err], dispatched := dispatched s @ [k]\<rparr>)"
    (is "cache_inv cp ?s'")
proof -
  have eo: "entries_ok s" and to: "tasks_ok cp s" and so: "single_owner s" and lo: "log_ok s"
    and ra: "results_apart s"
    using inv by (simp_all add: cache_inv_def)
  have me: "task_ok cp s (Dispatching k e)"
    using to i at by (auto simp: tasks_ok_def)
  have "entries_ok ?s'" using eo by (simp add: entries_ok_def)
  moreover have "tasks_ok cp ?s'"
  proof (rule tasks_ok_update [OF i])
    show "executor ?s' = (executor s)[i := Raised k err]" by simp
    show "task_ok cp ?s' (Raised k err)" by simp
    fix j assume j: "j < length (executor s)" "j \<noteq> i"
    then have "task_ok cp s (executor s ! j)" using to by (simp add: tasks_ok_def)
    moreover have "\<not> owns k (executor s ! j)"
      using others_do_not_own [OF so i _ j] at by simp
    ultimately have "task_ok cp (s\<lparr>dispatched := dispatched s @ [k]\<rparr>) (executor s ! j)"
      by (rule task_ok_logged)
    then show "task_ok cp ?s' (executor s ! j)"
      using task_ok_cong [of ?s' "s\<lparr>dispatched := dispatched s @ [k]\<rparr>" cp "executor s ! j"]
      by simp
  qed
  moreover have "single_owner ?s'"
    by (rule single_owner_update [OF so i, of _ "Raised k err"]) auto
  moreover have "log_ok ?s'"
    unfolding log_ok_def
  proof (intro conjI allI impI)
    fix k' assume "cache ?s' k' = None"
    then have "k' \<notin> set (dispatched s)" "k' \<noteq> k"
      using log_ok_not_dispatched [OF lo, of k'] me by auto
    then show "k' \<notin> set (dispatched ?s')" by simp
  next
    show "distinct (dispatched ?s')" using log_ok_distinct [OF lo] me by simp
  qed
  moreover have "results_apart ?s'"
    by (rule results_apart_update [OF ra i, of _ "Raised k err"]) auto
  ultimately show ?thesis by (simp add: cache_inv_def)
qed

lemma cache_inv_Dispatching_returns:
  assumes inv: "cache_inv cp s" and i: "i < length (executor s)"
    and at: "executor s ! i = Dispatching k e"
    and v: "v = None \<and> ps = [] \<or> v = Some (length (objects s)) \<and> ps = [p]"
  shows "cache_inv cp
     (s\<lparr>objects := objects s @ ps,
        entries := (entries s)[e := (entries s ! e)\<lparr>entry_value := v\<rparr>],
        executor := (executor s)[i := Signalling k e],
        dispatched := dispatched s @ [k]\<rparr>)"
    (is "cache_inv cp ?s'")
proof -
  have eo: "entries_ok s" and to: "tasks_ok cp s" and so: "single_owner s" and lo: "log_ok s"
    and ra: "results_apart s"
    using inv by (simp_all add: cache_inv_def)
  have me: "task_ok cp s (Dispatching k e)"
    using to i at by (auto simp: tasks_ok_def)
  then have ck: "cache s k = Some e" and ne: "\<not> event (entries s ! e)" by simp_all
  have e: "e < length (entries s)" using eo ck by (rule entries_ok_in_range)
  have "entries_ok ?s'"
    unfolding entries_ok_def
  proof (intro conjI allI impI)
    fix k' e' assume "cache ?s' k' = Some e'"
    then show "e' < length (entries ?s')" using entries_ok_in_range [OF eo, of k' e'] by simp
  next
    fix k1 k2 e' assume "cache ?s' k1 = Some e'" "cache ?s' k2 = Some e'"
    then show "k1 = k2" using entries_ok_inj [OF eo, of k1 e' k2] by simp
  next
    fix e' c assume a: "e' < length (entries ?s')" "entry_value (entries ?s' ! e') = Some c"
    show "c < length (objects ?s')"
    proof (cases "e' = e")
      case True
      then show ?thesis using a v e by auto
    next
      case False
      then have "entry_value (entries s ! e') = Some c" using a by simp
      then have "c < length (objects s)" using eo a(1) unfolding entries_ok_def by simp
      then show ?thesis by simp
    qed
  qed
  moreover have "tasks_ok cp ?s'"
  proof (rule tasks_ok_update [OF i])
    show "executor ?s' = (executor s)[i := Signalling k e]" by simp
    show "task_ok cp ?s' (Signalling k e)" using ck ne e by simp
    fix j assume j: "j < length (executor s)" "j \<noteq> i"
    then have ok: "task_ok cp s (executor s ! j)" using to by (simp add: tasks_ok_def)
    have no: "\<not> owns k (executor s ! j)"
      using others_do_not_own [OF so i _ j] at by simp
    let ?s1 = "s\<lparr>objects := objects s @ ps\<rparr>"
    have eo1: "entries_ok ?s1" using eo by (auto simp: entries_ok_def)
    have "task_ok cp ?s1 (executor s ! j)" using eo ok by (rule task_ok_more_objects)
    then have "task_ok cp (?s1\<lparr>entries := (entries ?s1)[e := (entries ?s1 ! e)\<lparr>entry_value := v\<rparr>]\<rparr>)
        (executor s ! j)"
      using task_ok_stored [OF eo1, of k e cp "executor s ! j" v] ck ne no by simp
    then have "task_ok cp (?s1\<lparr>entries := (entries ?s1)[e := (entries ?s1 ! e)\<lparr>entry_value := v\<rparr>],
        dispatched := dispatched s @ [k]\<rparr>) (executor s ! j)"
      using task_ok_logged
          [where s = "?s1\<lparr>entries := (entries ?s1)[e := (entries ?s1 ! e)\<lparr>entry_value := v\<rparr>]\<rparr>"
             and cp = cp, OF _ no]
      by simp
    then show "task_ok cp ?s' (executor s ! j)"
      using task_ok_cong
        [of ?s' "?s1\<lparr>entries := (entries ?s1)[e := (entries ?s1 ! e)\<lparr>entry_value := v\<rparr>],
                    dispatched := dispatched s @ [k]\<rparr>" cp "executor s ! j"]
      by simp
  qed
  moreover have "single_owner ?s'"
  proof (rule single_owner_update [OF so i])
    show "executor ?s' = (executor s)[i := Signalling k e]" by simp
    fix k' j assume "owns k' (Signalling k e)" "j < length (executor s)" "j \<noteq> i"
    then show "\<not> owns k' (executor s ! j)"
      using others_do_not_own [where s = s and i = i and k = k and j = j] so i at by simp
  qed
  moreover have "log_ok ?s'"
    unfolding log_ok_def
  proof (intro conjI allI impI)
    fix k' assume "cache ?s' k' = None"
    then have "k' \<notin> set (dispatched s)" "k' \<noteq> k"
      using log_ok_not_dispatched [OF lo, of k'] me by auto
    then show "k' \<notin> set (dispatched ?s')" by simp
  next
    show "distinct (dispatched ?s')" using log_ok_distinct [OF lo] me by simp
  qed
  moreover have "results_apart ?s'"
    by (rule results_apart_update [OF ra i, of _ "Signalling k e"]) auto
  ultimately show ?thesis by (simp add: cache_inv_def)
qed

lemma cache_inv_Signalling:
  assumes inv: "cache_inv cp s" and i: "i < length (executor s)"
    and at: "executor s ! i = Signalling k e"
  shows "cache_inv cp
     (s\<lparr>entries := (entries s)[e := (entries s ! e)\<lparr>event := True\<rparr>],
        executor := (executor s)[i := Returning k e]\<rparr>)"
    (is "cache_inv cp ?s'")
proof -
  have eo: "entries_ok s" and to: "tasks_ok cp s" and so: "single_owner s" and lo: "log_ok s"
    and ra: "results_apart s"
    using inv by (simp_all add: cache_inv_def)
  have me: "task_ok cp s (Signalling k e)"
    using to i at by (auto simp: tasks_ok_def)
  then have ck: "cache s k = Some e" by simp
  have e: "e < length (entries s)" using eo ck by (rule entries_ok_in_range)
  have "entries_ok ?s'"
    unfolding entries_ok_def
  proof (intro conjI allI impI)
    fix k' e' assume "cache ?s' k' = Some e'"
    then show "e' < length (entries ?s')" using entries_ok_in_range [OF eo, of k' e'] by simp
  next
    fix k1 k2 e' assume "cache ?s' k1 = Some e'" "cache ?s' k2 = Some e'"
    then show "k1 = k2" using entries_ok_inj [OF eo, of k1 e' k2] by simp
  next
    fix e' c assume a: "e' < length (entries ?s')" "entry_value (entries ?s' ! e') = Some c"
    then have "entry_value (entries s ! e') = Some c"
      by (cases "e' = e") (use e in auto)
    then have "c < length (objects s)" using eo a(1) unfolding entries_ok_def by simp
    then show "c < length (objects ?s')" by simp
  qed
  moreover have "tasks_ok cp ?s'"
  proof (rule tasks_ok_update [OF i])
    show "executor ?s' = (executor s)[i := Returning k e]" by simp
    show "task_ok cp ?s' (Returning k e)" using ck e by simp
    fix j assume j: "j < length (executor s)" "j \<noteq> i"
    then have ok: "task_ok cp s (executor s ! j)" using to by (simp add: tasks_ok_def)
    have no: "\<not> owns k (executor s ! j)"
      using others_do_not_own [where s = s and i = i and k = k and j = j] so i at j by simp
    have "task_ok cp (s\<lparr>entries := (entries s)[e := (entries s ! e)\<lparr>event := True\<rparr>]\<rparr>)
        (executor s ! j)"
      using eo ck ok no by (rule task_ok_signalled)
    then show "task_ok cp ?s' (executor s ! j)"
      using task_ok_cong
        [of ?s' "s\<lparr>entries := (entries s)[e := (entries s ! e)\<lparr>event := True\<rparr>]\<rparr>" cp
            "executor s ! j"]
      by simp
  qed
  moreover have "single_owner ?s'"
    by (rule single_owner_update [OF so i, of _ "Returning k e"]) auto
  moreover have "log_ok ?s'" using lo by (simp add: log_ok_def)
  moreover have "results_apart ?s'"
    by (rule results_apart_update [OF ra i, of _ "Returning k e"]) auto
  ultimately show ?thesis by (simp add: cache_inv_def)
qed

lemma cache_inv_more_objects:
  assumes inv: "cache_inv cp s"
  shows "cache_inv cp (s\<lparr>objects := objects s @ xs\<rparr>)" (is "cache_inv cp ?s'")
proof -
  have eo: "entries_ok s" and to: "tasks_ok cp s" and so: "single_owner s" and lo: "log_ok s"
    and ra: "results_apart s"
    using inv by (simp_all add: cache_inv_def)
  have "entries_ok ?s'"
    unfolding entries_ok_def
  proof (intro conjI allI impI)
    fix k' e' assume "cache ?s' k' = Some e'"
    then show "e' < length (entries ?s')" using entries_ok_in_range [OF eo, of k' e'] by simp
  next
    fix k1 k2 e' assume "cache ?s' k1 = Some e'" "cache ?s' k2 = Some e'"
    then show "k1 = k2" using entries_ok_inj [OF eo, of k1 e' k2] by simp
  next
    fix e' c assume a: "e' < length (entries ?s')" "entry_value (entries ?s' ! e') = Some c"
    then have "c < length (objects s)" using eo unfolding entries_ok_def by simp
    then show "c < length (objects ?s')" by simp
  qed
  moreover have "tasks_ok cp ?s'"
    using to task_ok_more_objects [OF eo, of cp _ xs] by (simp add: tasks_ok_def)
  moreover have "single_owner ?s'" using so by (simp add: single_owner_def)
  moreover have "log_ok ?s'" using lo by (simp add: log_ok_def)
  moreover have "results_apart ?s'" using ra by (simp add: results_apart_def)
  ultimately show ?thesis by (simp add: cache_inv_def)
qed

lemma cache_inv_Returning_some:
  assumes inv: "cache_inv cp s" and i: "i < length (executor s)"
    and at: "executor s ! i = Returning k e" and v: "entry_value (entries s ! e) = Some c"
  shows "cache_inv cp
     (s\<lparr>objects := objects s @ [cp (objects s ! c)],
        executor := (executor s)[i := Returned k (Some (length (objects s)))]\<rparr>)"
    (is "cache_inv cp ?s'")
proof -
  let ?s1 = "s\<lparr>objects := objects s @ [cp (objects s ! c)]\<rparr>"
  have inv1: "cache_inv cp ?s1" using inv by (rule cache_inv_more_objects)
  have eo: "entries_ok s" and to: "tasks_ok cp s" and to1: "tasks_ok cp ?s1"
    and so1: "single_owner ?s1" and ra1: "results_apart ?s1"
    using inv inv1 by (simp_all add: cache_inv_def)
  have me: "task_ok cp s (Returning k e)"
    using to i at by (auto simp: tasks_ok_def)
  then have ck: "cache s k = Some e" and ev: "event (entries s ! e)" by simp_all
  have c: "c < length (objects s)" using eo ck v by (rule entries_ok_value)
  have i1: "i < length (executor ?s1)" using i by simp
  have s': "?s' = ?s1\<lparr>executor := (executor ?s1)[i := Returned k (Some (length (objects s)))]\<rparr>"
    by simp
  have "tasks_ok cp ?s'"
  proof (rule tasks_ok_update [OF i1])
    show "executor ?s' = (executor ?s1)[i := Returned k (Some (length (objects s)))]" by simp
    show "task_ok cp ?s' (Returned k (Some (length (objects s))))"
      using ck ev v c by (simp add: nth_append)
    fix j assume "j < length (executor ?s1)" "j \<noteq> i"
    then have "task_ok cp ?s1 (executor ?s1 ! j)" using to1 by (simp add: tasks_ok_def)
    then show "task_ok cp ?s' (executor ?s1 ! j)"
      using task_ok_cong [of ?s' ?s1 cp "executor ?s1 ! j"] by simp
  qed
  moreover have "single_owner ?s'"
    by (rule single_owner_update [OF so1 i1, of _ "Returned k (Some (length (objects s)))"]) auto
  moreover have "results_apart ?s'"
  proof (rule results_apart_update [OF ra1 i1, of _ "Returned k (Some (length (objects s)))"])
    show "executor ?s' = (executor ?s1)[i := Returned k (Some (length (objects s)))]" by simp
    fix k1 a j k2
    assume t: "Returned k (Some (length (objects s))) = Returned k1 (Some a)"
      and j: "j < length (executor ?s1)" "j \<noteq> i"
    show "executor ?s1 ! j \<noteq> Returned k2 (Some a)"
    proof
      assume r: "executor ?s1 ! j = Returned k2 (Some a)"
      have "task_ok cp s (executor s ! j)" using to j by (simp add: tasks_ok_def)
      then have "a < length (objects s)"
        using r by (auto split: option.splits prod.splits)
      then show False using t by simp
    qed
  qed
  moreover have "entries_ok ?s'" "log_ok ?s'"
    using inv1 by (simp_all add: cache_inv_def entries_ok_def log_ok_def)
  ultimately show ?thesis by (simp add: cache_inv_def)
qed

lemma cache_inv_step:
  assumes inv: "cache_inv cp s"
  shows "cache_inv cp (step be cp i s)"
proof (cases "i < length (executor s)")
  case False
  then show ?thesis using inv by (simp add: step_out_of_range)
next
  case i: True
  have to: "tasks_ok cp s" using inv by (simp add: cache_inv_def)
  have me: "task_ok cp s (executor s ! i)" using to i by (simp add: tasks_ok_def)
  show ?thesis
  proof (cases "executor s ! i")
    case (Start k)
    show ?thesis
    proof (cases "cache s k")
      case None
      show ?thesis
        unfolding step_Start_miss [OF i Start None]
        using inv i None by (rule cache_inv_Start_miss)
    next
      case (Some e)
      show ?thesis
        unfolding step_Start_hit [OF i Start Some]
        by (rule cache_inv_task_moves [OF inv i]) (use Some in auto)
    qed
  next
    case (Waiting k e)
    show ?thesis
    proof (cases "event (entries s ! e)")
      case True
      have "cache_inv cp (s\<lparr>executor := (executor s)[i := Returning k e]\<rparr>)"
        by (rule cache_inv_task_moves [OF inv i]) (use me Waiting True in auto)
      then show ?thesis using True by (simp add: step_Waiting [OF i Waiting])
    next
      case False
      then show ?thesis using inv by (simp add: step_Waiting [OF i Waiting])
    qed
  next
    case (Dispatching k e)
    show ?thesis
    proof (cases "init_value_dispatch be k")
      case (Inl err)
      show ?thesis
        unfolding step_Dispatching_raises [OF i Dispatching Inl]
        using inv i Dispatching by (rule cache_inv_Dispatching_raises)
    next
      case (Inr v)
      show ?thesis
      proof (cases v)
        case None
        have "cache_inv cp
           (s\<lparr>objects := objects s @ [],
              entries := (entries s)[e := (entries s ! e)\<lparr>entry_value := None\<rparr>],
              executor := (executor s)[i := Signalling k e],
              dispatched := dispatched s @ [k]\<rparr>)"
          by (rule cache_inv_Dispatching_returns [OF inv i Dispatching]) simp
        then show ?thesis
          using Inr None by (simp add: step_Dispatching_none [OF i Dispatching])
      next
        case (Some p)
        have "cache_inv cp
           (s\<lparr>objects := objects s @ [p],
              entries := (entries s)[e := (entries s ! e)\<lparr>entry_value := Some (length (objects s))\<rparr>],
              executor := (executor s)[i := Signalling k e],
              dispatched := dispatched s @ [k]\<rparr>)"
          by (rule cache_inv_Dispatching_returns [OF inv i Dispatching]) simp
        then show ?thesis
          using Inr Some by (simp add: step_Dispatching_some [OF i Dispatching])
      qed
    qed
  next
    case (Signalling k e)
    show ?thesis
      unfolding step_Signalling [OF i Signalling]
      using inv i Signalling by (rule cache_inv_Signalling)
  next
    case (Returning k e)
    show ?thesis
    proof (cases "entry_value (entries s ! e)")
      case None
      show ?thesis
        unfolding step_Returning_none [OF i Returning None]
        by (rule cache_inv_task_moves [OF inv i]) (use me Returning None in auto)
    next
      case (Some c)
      show ?thesis
        unfolding step_Returning_some [OF i Returning Some]
        using inv i Returning Some by (rule cache_inv_Returning_some)
    qed
  next
    case (Returned k r)
    then show ?thesis using inv step_finished [OF i, of k r] by simp
  next
    case (Raised k err)
    then show ?thesis using inv step_finished [OF i, of k _ err] by simp
  qed
qed

subsection \<open>Every run without a reset keeps the invariant\<close>


lemma cache_inv_get_future_value:
  assumes inv: "cache_inv cp s"
  shows "cache_inv cp (snd (get_future_value k s))"
proof -
  let ?s' = "s\<lparr>executor := executor s @ [Start k]\<rparr>"
  have eo: "entries_ok s" and to: "tasks_ok cp s" and so: "single_owner s" and lo: "log_ok s"
    and ra: "results_apart s"
    using inv by (simp_all add: cache_inv_def)
  have nth: "j < length (executor ?s') \<Longrightarrow>
      executor ?s' ! j = (if j < length (executor s) then executor s ! j else Start k)" for j
    by (auto simp: nth_append)
  have "tasks_ok cp ?s'"
    unfolding tasks_ok_def using to nth by (auto simp: tasks_ok_def)
  moreover have "single_owner ?s'"
    unfolding single_owner_def
  proof (intro allI impI)
    fix a b k'
    assume a: "a < length (executor ?s')" "b < length (executor ?s')"
      "owns k' (executor ?s' ! a)" "owns k' (executor ?s' ! b)"
    then have l: "a < length (executor s)" "b < length (executor s)"
      using nth [of a] nth [of b] by (auto split: if_splits)
    then have "owns k' (executor s ! a)" "owns k' (executor s ! b)"
      using a by (simp_all add: nth_append)
    then show "a = b" using l so unfolding single_owner_def by blast
  qed
  moreover have "results_apart ?s'"
    unfolding results_apart_def
  proof (intro allI impI)
    fix a b k1 k2 x
    assume a: "a < length (executor ?s')" "b < length (executor ?s')"
      "executor ?s' ! a = Returned k1 (Some x)" "executor ?s' ! b = Returned k2 (Some x)"
    then have l: "a < length (executor s)" "b < length (executor s)"
      using nth [of a] nth [of b] by (auto split: if_splits)
    then have "executor s ! a = Returned k1 (Some x)" "executor s ! b = Returned k2 (Some x)"
      using a by (simp_all add: nth_append)
    then show "a = b" using l ra unfolding results_apart_def by blast
  qed
  ultimately show ?thesis
    using eo lo by (simp add: cache_inv_def get_future_value_def)
qed

lemma cache_inv_get_cached_value:
  assumes inv: "cache_inv cp s"
  shows "cache_inv cp (snd (get_cached_value cp k s))"
  using inv cache_inv_more_objects [OF inv]
  by (auto simp: get_cached_value_def split: option.splits)

lemma cache_inv_run:
  assumes "Reset \<notin> set actions" and "cache_inv cp s"
  shows "cache_inv cp (run be cp actions s)"
  using assms
proof (induction actions arbitrary: s)
  case Nil
  then show ?case by (simp add: run_def)
next
  case (Cons a actions)
  have "cache_inv cp (perform be cp s a)"
    using Cons.prems
    by (cases a)
      (simp_all add: perform_def cache_inv_step cache_inv_get_future_value
        cache_inv_get_cached_value)
  then have "cache_inv cp (run be cp actions (perform be cp s a))"
    using Cons.IH Cons.prems(1) by simp
  then show ?case by (simp add: run_def)
qed

subsection \<open>The dispatch of a key and its entry\<close>



















subsection \<open>What the callers of a key get\<close>







subsection \<open>A call can run to its return\<close>















subsection \<open>At most one dispatch per key\<close>


lemma example_run:
  "run example_backend id example_actions new_backend =
     \<lparr>cache = [(''json'', ''{}'') \<mapsto> 0, (''regex'', ''a+'') \<mapsto> 1],
      entries = [\<lparr>entry_value = Some 0, event = True\<rparr>, \<lparr>entry_value = None, event = True\<rparr>],
      objects = [''compiled {}'', ''compiled {}'', ''compiled {}''],
      executor = [Returned (''json'', ''{}'') (Some 1), Returned (''json'', ''{}'') (Some 2),
                  Returned (''regex'', ''a+'') None],
      dispatched = [(''json'', ''{}''), (''regex'', ''a+'')]\<rparr>"
  by (simp add: run_def example_actions_def perform_def get_future_value_def new_backend_def
      step_def example_backend_def init_value_dispatch_def not_supported_def)

lemma example_waiting:
  "run example_backend id example_waiting_actions new_backend =
     \<lparr>cache = [(''json'', ''{}'') \<mapsto> 0],
      entries = [\<lparr>entry_value = None, event = False\<rparr>],
      objects = [],
      executor = [Dispatching (''json'', ''{}'') 0, Waiting (''json'', ''{}'') 0],
      dispatched = []\<rparr>"
  by (simp add: run_def example_waiting_actions_def perform_def get_future_value_def
      new_backend_def step_def)




subsection \<open>When an entry becomes ready\<close>

text \<open>
  C2, as stated, has the entry marked ready, with an absent value, when the compile
  routine raises. Two callers ask for one JSON key of a backend whose JSON compiler
  raises: the exception ends the task of the first caller before \<open>entry.event.set()\<close>,
  the event of the entry stays unset, the second caller stays at \<open>entry.event.wait()\<close>,
  and no step of any task changes anything any more.
\<close>

theorem raising_dispatch_leaves_entry_pending:
  "executor (run example_raising_backend id example_raising_actions new_backend) =
     [Raised (''json'', ''{}'') (BackendError ''invalid schema: {}''),
      Waiting (''json'', ''{}'') 0]
   \<and> entries (run example_raising_backend id example_raising_actions new_backend) =
       [\<lparr>entry_value = None, event = False\<rparr>]
   \<and> (\<forall>i. step example_raising_backend id i
             (run example_raising_backend id example_raising_actions new_backend) =
           run example_raising_backend id example_raising_actions new_backend)"
proof -
  have r: "run example_raising_backend id example_raising_actions new_backend =
     \<lparr>cache = [(''json'', ''{}'') \<mapsto> 0],
      entries = [\<lparr>entry_value = None, event = False\<rparr>],
      objects = [],
      executor = [Raised (''json'', ''{}'') (BackendError ''invalid schema: {}''),
                  Waiting (''json'', ''{}'') 0],
      dispatched = [(''json'', ''{}'')]\<rparr>"
    by (simp add: run_def example_raising_actions_def perform_def get_future_value_def
        new_backend_def step_def example_raising_backend_def init_value_dispatch_def)
  have "step example_raising_backend id i
          (run example_raising_backend id example_raising_actions new_backend) =
        run example_raising_backend id example_raising_actions new_backend" for i
  proof -
    consider "i = 0" | "i = 1" | "2 \<le> i" by linarith
    then show ?thesis
      by cases (simp_all add: r step_def)
  qed
  then show ?thesis by (simp add: r)
qed

text \<open>
  C2, amended: when the dispatch returns, with a grammar object or with \<open>None\<close>, the
  compiling caller stores what it returned in the entry, \<open>None\<close> or the address of the
  returned object, and sets the event, and every caller waiting on that entry moves on
  at its next step. When the dispatch raises, the exception ends the compiling call:
  the entry is left as it was, its event unset, and a caller waiting on it does not
  move.
\<close>

theorem dispatch_result_decides_readiness:
  assumes "i < length (executor self)" and "executor self ! i = Dispatching key e"
    and "e < length (entries self)"
  shows "case init_value_dispatch backend key of
           Inr v \<Rightarrow>
             (let after = step backend grammar_copy i (step backend grammar_copy i self) in
              event (entries after ! e)
              \<and> (case v of
                    None \<Rightarrow> entry_value (entries after ! e) = None
                  | Some p \<Rightarrow>
                      (\<exists>c. entry_value (entries after ! e) = Some c
                         \<and> length (objects self) \<le> c \<and> c < length (objects after)
                         \<and> objects after ! c = p))
              \<and> executor after ! i = Returning key e
              \<and> (\<forall>j. j < length (executor after) \<and> executor after ! j = Waiting key e \<longrightarrow>
                    executor (step backend grammar_copy j after) ! j = Returning key e))
         | Inl err \<Rightarrow>
             (let after = step backend grammar_copy i self in
              executor after ! i = Raised key err
              \<and> entries after = entries self
              \<and> (\<not> event (entries self ! e) \<longrightarrow>
                    (\<forall>j. j < length (executor after) \<and> executor after ! j = Waiting key e \<longrightarrow>
                       step backend grammar_copy j after = after)))"
proof (cases "init_value_dispatch backend key")
  case (Inl err)
  let ?after = "self\<lparr>executor := (executor self)[i := Raised key err],
                      dispatched := dispatched self @ [key]\<rparr>"
  have s: "step backend grammar_copy i self = ?after"
    using assms(1,2) Inl by (rule step_Dispatching_raises)
  have "step backend grammar_copy j ?after = ?after"
    if "j < length (executor ?after)" "executor ?after ! j = Waiting key e"
      "\<not> event (entries self ! e)" for j
    using step_Waiting [OF that(1,2), of backend grammar_copy] that(3) by simp
  then show ?thesis
    using Inl assms(1) by (simp add: s Let_def)
next
  case (Inr v)
  define mid where "mid = step backend grammar_copy i self"
  have mid: "step backend grammar_copy i self = mid" by (simp add: mid_def)
  have m1: "executor mid = (executor self)[i := Signalling key e]"
    using assms(1,2) Inr
    by (cases v) (simp_all add: mid_def step_Dispatching_none step_Dispatching_some)
  have m2: "case v of
              None \<Rightarrow> entries mid = (entries self)[e := (entries self ! e)\<lparr>entry_value := None\<rparr>]
            | Some p \<Rightarrow>
                entries mid =
                  (entries self)[e := (entries self ! e)\<lparr>entry_value := Some (length (objects self))\<rparr>]
                \<and> objects mid = objects self @ [p]"
    using assms(1,2) Inr
    by (cases v) (simp_all add: mid_def step_Dispatching_none step_Dispatching_some)
  have i: "i < length (executor mid)" "executor mid ! i = Signalling key e"
    using assms(1) m1 by simp_all
  let ?after = "mid\<lparr>entries := (entries mid)[e := (entries mid ! e)\<lparr>event := True\<rparr>],
                    executor := (executor mid)[i := Returning key e]\<rparr>"
  have s: "step backend grammar_copy i mid = ?after"
    using i by (rule step_Signalling)
  have e: "e < length (entries mid)" using m2 assms(3) by (cases v) simp_all
  have ev: "event (entries ?after ! e)" using e by simp
  have val: "case v of
               None \<Rightarrow> entry_value (entries ?after ! e) = None
             | Some p \<Rightarrow>
                 (\<exists>c. entry_value (entries ?after ! e) = Some c
                    \<and> length (objects self) \<le> c \<and> c < length (objects ?after)
                    \<and> objects ?after ! c = p)"
    using m2 assms(3) e by (cases v) simp_all
  have "executor (step backend grammar_copy j ?after) ! j = Returning key e"
    if "j < length (executor ?after)" "executor ?after ! j = Waiting key e" for j
    using step_Waiting [OF that, of backend grammar_copy] ev that(1) by simp
  then show ?thesis
    using Inr ev val i(1) by (simp add: mid s Let_def)
qed

text \<open>
  With the JSON backend, the first caller dispatches, stores the compiled object and
  sets the event, and the second, which was waiting, moves on to its return.
\<close>

theorem dispatch_result_decides_readiness_witness:
  "(let waiting = run example_backend id example_waiting_actions new_backend;
        after = step example_backend id 0 (step example_backend id 0 waiting)
    in executor waiting = [Dispatching (''json'', ''{}'') 0, Waiting (''json'', ''{}'') 0]
       \<and> event (entries after ! 0)
       \<and> entry_value (entries after ! 0) = Some 0
       \<and> objects after ! 0 = ''compiled {}''
       \<and> executor (step example_backend id 1 after) ! 1 = Returning (''json'', ''{}'') 0)"
proof -
  let ?waiting = "run example_backend id example_waiting_actions new_backend"
  have d: "init_value_dispatch example_backend (''json'', ''{}'') = Inr (Some ''compiled {}'')"
    by (simp add: init_value_dispatch_def example_backend_def)
  have "0 < length (executor ?waiting)"
    and "executor ?waiting ! 0 = Dispatching (''json'', ''{}'') 0"
    and "0 < length (entries ?waiting)"
    by (simp_all add: example_waiting)
  from dispatch_result_decides_readiness [OF this, of example_backend id]
  show ?thesis
    by (simp add: d Let_def example_waiting step_def)
qed

subsection \<open>What a caller is handed\<close>

lemma returned_only_by_return:
  assumes "i < length (executor self)"
    and "executor (step backend grammar_copy j self) ! i = Returned key r"
  shows "executor self ! i = Returned key r
       \<or> (j = i \<and> (\<exists>e. executor self ! i = Returning key e))"
proof (cases "j < length (executor self)")
  case False
  then show ?thesis using assms(2) by (simp add: step_out_of_range)
next
  case j: True
  show ?thesis
  proof (cases "j = i")
    case False
    have "executor (step backend grammar_copy j self) ! i = executor self ! i"
      using False j assms(1)
      by (cases "executor self ! j")
        (auto simp: step_def split: option.splits sum.splits)
    then show ?thesis using assms(2) by simp
  next
    case True
    then show ?thesis
      using assms j
      by (cases "executor self ! i")
        (auto simp: step_def split: option.splits sum.splits if_splits)
  qed
qed

text \<open>
  C8: a caller of the blocking operation gets its result at the return step and nowhere
  else. At that step, and in a peek at a ready entry, an entry without a value gives
  \<open>None\<close>, and an entry with a value gives the address of a new object: one that did
  not exist before the call, so not the object the entry holds, whose content is what
  the copy method makes of the entry's object; the entry and its object are left as they
  were. A peek at a key that is not cached, or whose entry is not ready, gives \<open>None\<close>
  and changes nothing.
\<close>

theorem callers_get_copies:
  "(i < length (executor self) \<and> executor self ! i = Returning key e
      \<and> entry_value (entries self ! e) = v \<and> (\<forall>c. v = Some c \<longrightarrow> c < length (objects self)) \<longrightarrow>
      (let after = step backend grammar_copy i self in
       entries after = entries self \<and> cache after = cache self
       \<and> (case v of
             None \<Rightarrow> executor after ! i = Returned key None \<and> objects after = objects self
           | Some c \<Rightarrow>
               (\<exists>a. executor after ! i = Returned key (Some a)
                  \<and> a \<noteq> c \<and> length (objects self) \<le> a \<and> a < length (objects after)
                  \<and> objects after ! a = grammar_copy (objects self ! c)
                  \<and> objects after ! c = objects self ! c))))
   \<and> (cache self key = Some e \<and> event (entries self ! e)
        \<and> entry_value (entries self ! e) = v \<and> (\<forall>c. v = Some c \<longrightarrow> c < length (objects self)) \<longrightarrow>
        (case get_cached_value grammar_copy key self of
           (result, after) \<Rightarrow>
             entries after = entries self \<and> cache after = cache self
             \<and> (case v of
                   None \<Rightarrow> result = None \<and> objects after = objects self
                 | Some c \<Rightarrow>
                     (\<exists>a. result = Some a
                        \<and> a \<noteq> c \<and> length (objects self) \<le> a \<and> a < length (objects after)
                        \<and> objects after ! a = grammar_copy (objects self ! c)
                        \<and> objects after ! c = objects self ! c))))
   \<and> (cache self key = None \<or> (\<exists>e. cache self key = Some e \<and> \<not> event (entries self ! e)) \<longrightarrow>
        get_cached_value grammar_copy key self = (None, self))
   \<and> (i < length (executor self)
        \<and> executor (step backend grammar_copy j self) ! i = Returned key r \<longrightarrow>
        executor self ! i = Returned key r
        \<or> (j = i \<and> (\<exists>e. executor self ! i = Returning key e)))"
proof (intro conjI impI)
  assume a: "i < length (executor self) \<and> executor self ! i = Returning key e
      \<and> entry_value (entries self ! e) = v \<and> (\<forall>c. v = Some c \<longrightarrow> c < length (objects self))"
  show "let after = step backend grammar_copy i self in
       entries after = entries self \<and> cache after = cache self
       \<and> (case v of
             None \<Rightarrow> executor after ! i = Returned key None \<and> objects after = objects self
           | Some c \<Rightarrow>
               (\<exists>a. executor after ! i = Returned key (Some a)
                  \<and> a \<noteq> c \<and> length (objects self) \<le> a \<and> a < length (objects after)
                  \<and> objects after ! a = grammar_copy (objects self ! c)
                  \<and> objects after ! c = objects self ! c))"
  proof (cases v)
    case None
    then show ?thesis
      using a step_Returning_none [of i self key e backend grammar_copy] by (simp add: Let_def)
  next
    case (Some c)
    then show ?thesis
      using a step_Returning_some [of i self key e c backend grammar_copy]
      by (auto simp: Let_def nth_append)
  qed
next
  assume a: "cache self key = Some e \<and> event (entries self ! e)
        \<and> entry_value (entries self ! e) = v \<and> (\<forall>c. v = Some c \<longrightarrow> c < length (objects self))"
  then show "case get_cached_value grammar_copy key self of
           (result, after) \<Rightarrow>
             entries after = entries self \<and> cache after = cache self
             \<and> (case v of
                   None \<Rightarrow> result = None \<and> objects after = objects self
                 | Some c \<Rightarrow>
                     (\<exists>a. result = Some a
                        \<and> a \<noteq> c \<and> length (objects self) \<le> a \<and> a < length (objects after)
                        \<and> objects after ! a = grammar_copy (objects self ! c)
                        \<and> objects after ! c = objects self ! c))"
    by (cases v) (auto simp: get_cached_value_def nth_append)
next
  assume "cache self key = None \<or> (\<exists>e. cache self key = Some e \<and> \<not> event (entries self ! e))"
  then show "get_cached_value grammar_copy key self = (None, self)"
    by (auto simp: get_cached_value_def)
next
  assume "i < length (executor self)
        \<and> executor (step backend grammar_copy j self) ! i = Returned key r"
  then show "executor self ! i = Returned key r
        \<or> (j = i \<and> (\<exists>e. executor self ! i = Returning key e))"
    using returned_only_by_return [of i self backend grammar_copy j key r] by blast
qed

text \<open>
  After the three callers have returned, a peek at the JSON key gives a fourth object,
  a copy of object 0, which the entry still holds; a peek at the unsupported regex and
  one at a key nobody asked for give \<open>None\<close>.
\<close>

theorem callers_get_copies_witness:
  "(let ready = run example_backend id example_actions new_backend
    in entry_value (entries ready ! 0) = Some 0
       \<and> get_cached_value id (''json'', ''{}'') ready =
           (Some 3, ready\<lparr>objects := objects ready @ [''compiled {}'']\<rparr>)
       \<and> get_cached_value id (''regex'', ''a+'') ready = (None, ready)
       \<and> get_cached_value id (''ebnf'', ''root ::= x'') ready = (None, ready))"
proof -
  let ?ready = "run example_backend id example_actions new_backend"
  have "cache ?ready (''json'', ''{}'') = Some 0 \<and> event (entries ?ready ! 0)
        \<and> entry_value (entries ?ready ! 0) = Some 0
        \<and> (\<forall>c. Some 0 = Some c \<longrightarrow> c < length (objects ?ready))"
    by (simp add: example_run)
  from callers_get_copies [where self = "?ready" and key = "(''json'', ''{}'')" and e = 0
      and v = "Some 0" and grammar_copy = id, THEN conjunct2, THEN conjunct1, rule_format, OF this]
  show ?thesis
    by (simp add: example_run Let_def get_cached_value_def)
qed


end
